theory Spec2Isabelle
  imports Main "HOL-Library.Word"
begin

unbundle bit_operations_syntax

chapter \<open>A shallow embedding of the prores-go slice decoder\<close>

text \<open>
  Go's \<open>int\<close> is modelled as \<open>int\<close>: the build is restricted to amd64, where it has 64
  bits, and no value of the decoder comes near that bound before an index check stops
  it. \<open>byte\<close> is \<open>8 word\<close>, \<open>int16\<close> is \<open>16 word\<close>, \<open>int32\<close>/\<open>uint32\<close> are \<open>32 word\<close>
  (signed values are read with \<open>sint\<close>). On \<open>int\<close>, \<open>x >> k\<close> is \<open>drop_bit k x\<close>
  (\<open>x div 2 ^ k\<close>, rounding down, as Go's arithmetic shift does) and \<open>x & 7\<close> is
  \<open>x mod 8\<close>.
\<close>

section \<open>Definitions\<close>

subsection \<open>Run-time panics\<close>

text \<open>
  An index or slice expression out of range makes the Go run time panic; nothing in
  the package recovers. A function that can panic returns \<open>Panic\<close> there and
  \<open>Return v\<close> when it returns \<open>v\<close>.
\<close>

datatype 'a go = Panic | Return 'a

subsection \<open>Block pipeline: \<open>clamp10bit\<close>\<close>

text \<open>
  \<^verbatim>\<open>func clamp10bit(n int32) uint16 {
      if uint32(n)&0xfffffc00 != 0 { return uint16((-n)>>31) & 0x3ff }
      return uint16(n) }\<close>
  The shift of the \<open>int32\<close> is arithmetic (\<open>signed_drop_bit\<close>), the negation wraps.
\<close>

definition clamp10bit :: "32 word \<Rightarrow> 16 word" where
  "clamp10bit n =
     (if n AND 0xfffffc00 \<noteq> 0 then ucast (signed_drop_bit 31 (- n)) AND 0x3ff
      else ucast n)"

subsection \<open>Slice decoder: quantisation scale\<close>

text \<open>
  From \<open>DecodeSlice\<close>:
  \<^verbatim>\<open>qScale := int32(header.QuantizationIndex)
  if header.QuantizationIndex >= 129 {
      qScale = 128 + 4*int32(header.QuantizationIndex-128) }
  for i := 0; i < 64; i++ { scaledLumaMatrix[i] = int32(lumaMatrix[i]) * qScale }\<close>
  The matrix is a \<open>[]int8\<close>; reading it beyond its length panics.
\<close>

definition qScale :: "int \<Rightarrow> 32 word" where
  "qScale QuantizationIndex =
     (if QuantizationIndex \<ge> 129 then 128 + 4 * word_of_int (QuantizationIndex - 128)
      else word_of_int QuantizationIndex)"

definition scaledMatrix :: "8 word list \<Rightarrow> 32 word \<Rightarrow> 32 word list go" where
  "scaledMatrix qMatrix qs =
     (if length qMatrix < 64 then Panic
      else Return (map (\<lambda>i. scast (qMatrix ! i) * qs) [0..<64]))"

subsection \<open>Bit reader\<close>

text \<open>
  \<^verbatim>\<open>type Bitstream struct { Offset int; Bytes []byte }\<close>
  \<open>Offset\<close> counts bits from the start of \<open>Bytes\<close>. The methods mutate the receiver
  and write their result through a pointer, returning \<open>false\<close> on failure. In the model
  a method returns \<open>Return (Some (v, bs'))\<close> for \<open>true\<close> with result \<open>v\<close> and new state
  \<open>bs'\<close>, and \<open>Return None\<close> for \<open>false\<close>; every caller in the package returns an
  error at once after \<open>false\<close>, without reading the destination or the reader again.
\<close>

record Bitstream =
  Offset :: int
  Bytes :: "8 word list"

definition RemainingBits :: "Bitstream \<Rightarrow> int" where
  "RemainingBits bs = int (length (Bytes bs)) * 8 - Offset bs"

text \<open>
  \<open>xs[i]\<close> needs \<open>0 \<le> i < len(xs)\<close> and \<open>xs[i:]\<close> needs \<open>0 \<le> i \<le> len(xs)\<close>;
  otherwise Go panics.
\<close>

definition index_ok :: "'a list \<Rightarrow> int \<Rightarrow> bool" where
  "index_ok xs i \<longleftrightarrow> 0 \<le> i \<and> i < int (length xs)"

definition slice_ok :: "'a list \<Rightarrow> int \<Rightarrow> bool" where
  "slice_ok xs i \<longleftrightarrow> 0 \<le> i \<and> i \<le> int (length xs)"

text \<open>
  The functions of Go's \<open>math/bits\<close> that the reader calls, after their documentation:
  \<open>LeadingZerosN(x)\<close> is the number of leading zero bits of \<open>x\<close>, \<open>N\<close> for \<open>x = 0\<close>;
  \<open>ReverseBytes64(x)\<close> is \<open>x\<close> with its bytes in reversed order.
\<close>

primrec leading_zeros :: "nat \<Rightarrow> 'a::len word \<Rightarrow> nat" where
  "leading_zeros 0 w = 0"
| "leading_zeros (Suc n) w = (if bit w n then 0 else Suc (leading_zeros n w))"

definition LeadingZeros8 :: "8 word \<Rightarrow> int" where
  "LeadingZeros8 x = int (leading_zeros 8 x)"

definition LeadingZeros32 :: "32 word \<Rightarrow> int" where
  "LeadingZeros32 x = int (leading_zeros 32 x)"

definition LeadingZeros64 :: "64 word \<Rightarrow> int" where
  "LeadingZeros64 x = int (leading_zeros 64 x)"

definition byte_of :: "64 word \<Rightarrow> nat \<Rightarrow> 64 word" where
  "byte_of x k = take_bit 8 (drop_bit (8 * k) x)"

definition ReverseBytes64 :: "64 word \<Rightarrow> 64 word" where
  "ReverseBytes64 x =
     push_bit 56 (byte_of x 0) OR push_bit 48 (byte_of x 1) OR
     push_bit 40 (byte_of x 2) OR push_bit 32 (byte_of x 3) OR
     push_bit 24 (byte_of x 4) OR push_bit 16 (byte_of x 5) OR
     push_bit 8 (byte_of x 6) OR byte_of x 7"

text \<open>
  \<^verbatim>\<open>*(*uint64)(unsafe.Pointer(&bs.Bytes[pos]))\<close> on amd64: the eight bytes from
  \<open>pos\<close> on, the first one least significant. The argument is the byte slice from
  \<open>pos\<close> on.
\<close>

definition load_uint64 :: "8 word list \<Rightarrow> 64 word" where
  "load_uint64 b =
     ucast (b ! 0) OR push_bit 8 (ucast (b ! 1)) OR
     push_bit 16 (ucast (b ! 2)) OR push_bit 24 (ucast (b ! 3)) OR
     push_bit 32 (ucast (b ! 4)) OR push_bit 40 (ucast (b ! 5)) OR
     push_bit 48 (ucast (b ! 6)) OR push_bit 56 (ucast (b ! 7))"

text \<open>
  The byte-wise loop at the end of \<open>ReadSmallUnary\<close>:
  \<^verbatim>\<open>for i := 1; i < len(buf); i++ {
      if buf[i] != 0 {
          *dest = bits.LeadingZeros8(buf[i]) - skipped + i<<3
          bs.Offset += *dest + 1
          return true } }
  return false\<close>
\<close>

function ReadSmallUnary_loop ::
  "Bitstream \<Rightarrow> 8 word list \<Rightarrow> int \<Rightarrow> nat \<Rightarrow> (int \<times> Bitstream) option" where
  "ReadSmallUnary_loop bs buf skipped i =
     (if i < length buf then
        (if buf ! i \<noteq> 0 then
           (let dest = LeadingZeros8 (buf ! i) - skipped + int i * 8
            in Some (dest, bs\<lparr>Offset := Offset bs + dest + 1\<rparr>))
         else ReadSmallUnary_loop bs buf skipped (i + 1))
      else None)"
  by pat_completeness auto
termination
  by (relation "measure (\<lambda>(bs, buf, skipped, i). length buf - i)") auto

declare ReadSmallUnary_loop.simps [simp del]

definition ReadSmallUnary :: "Bitstream \<Rightarrow> (int \<times> Bitstream) option go" where
  "ReadSmallUnary bs =
     (let pos = Offset bs div 8; l = int (length (Bytes bs)) - pos in
      if l = 0 then Return None
      else if l \<ge> 8 then
        (if \<not> index_ok (Bytes bs) pos then Panic
         else
           (let dest = LeadingZeros64
                  (push_bit (nat (Offset bs mod 8))
                     (ReverseBytes64 (load_uint64 (drop (nat pos) (Bytes bs)))))
            in Return (Some (dest, bs\<lparr>Offset := Offset bs + dest + 1\<rparr>))))
      else if \<not> slice_ok (Bytes bs) (Offset bs div 8) then Panic
      else
        (let buf = drop (nat (Offset bs div 8)) (Bytes bs);
             skipped = Offset bs mod 8;
             mask = drop_bit (nat skipped) (0xff :: 8 word) in
         if \<not> index_ok buf 0 then Panic
         else
           (let masked = buf ! 0 AND mask in
            if masked \<noteq> 0 then
              (let dest = LeadingZeros8 (push_bit (nat skipped) masked)
               in Return (Some (dest, bs\<lparr>Offset := Offset bs + dest + 1\<rparr>)))
            else Return (ReadSmallUnary_loop bs buf skipped 1))))"

definition ReadBit :: "Bitstream \<Rightarrow> (bool \<times> Bitstream) option go" where
  "ReadBit bs =
     (if RemainingBits bs < 1 then Return None
      else if \<not> index_ok (Bytes bs) (Offset bs div 8) then Panic
      else Return (Some
        (Bytes bs ! nat (Offset bs div 8) AND push_bit (nat (7 - Offset bs mod 8)) 1 \<noteq> 0,
         bs\<lparr>Offset := Offset bs + 1\<rparr>)))"

definition ReadInt :: "Bitstream \<Rightarrow> int \<Rightarrow> (int \<times> Bitstream) option go" where
  "ReadInt bs bits =
     (let remaining = RemainingBits bs in
      if remaining < bits \<or> bits > 32 then Return None
      else if bits = 0 then Return (Some (0, bs))
      else if \<not> slice_ok (Bytes bs) (Offset bs div 8) then Panic
      else
        (let buf = drop (nat (Offset bs div 8)) (Bytes bs);
             bitOffset = Offset bs mod 8;
             endBit = bitOffset + bits;
             shiftRight = nat ((8 - endBit mod 8) mod 8);
             mask = drop_bit (nat bitOffset) (0xff :: 8 word);
             bs' = bs\<lparr>Offset := Offset bs + bits\<rparr> in
         if endBit > 24 then
           (if \<not> index_ok buf 3 then Panic
            else Return (Some
              (drop_bit shiftRight
                 (push_bit 24 (uint (buf ! 0 AND mask)) OR push_bit 16 (uint (buf ! 1)) OR
                  push_bit 8 (uint (buf ! 2)) OR uint (buf ! 3)), bs')))
         else if endBit > 16 then
           (if \<not> index_ok buf 2 then Panic
            else Return (Some
              (drop_bit shiftRight
                 (push_bit 16 (uint (buf ! 0 AND mask)) OR push_bit 8 (uint (buf ! 1)) OR
                  uint (buf ! 2)), bs')))
         else if endBit > 8 then
           (if \<not> index_ok buf 1 then Panic
            else Return (Some
              (drop_bit shiftRight
                 (push_bit 8 (uint (buf ! 0 AND mask)) OR uint (buf ! 1)), bs')))
         else
           (if \<not> index_ok buf 0 then Panic
            else Return (Some (drop_bit shiftRight (uint (buf ! 0 AND mask)), bs')))))"

definition EndOfData :: "Bitstream \<Rightarrow> bool go" where
  "EndOfData bs =
     (let remaining = RemainingBits bs in
      if remaining \<ge> 32 then Return False
      else if remaining \<le> 0 then Return True
      else if \<not> slice_ok (Bytes bs) (Offset bs div 8) then Panic
      else
        (let buf = drop (nat (Offset bs div 8)) (Bytes bs);
             shift = nat (Offset bs mod 8) in
         if remaining > 24 then
           (if \<not> index_ok buf 3 then Panic
            else Return (push_bit shift (buf ! 0) OR buf ! 1 OR buf ! 2 OR buf ! 3 = 0))
         else if remaining > 16 then
           (if \<not> index_ok buf 2 then Panic
            else Return (push_bit shift (buf ! 0) OR buf ! 1 OR buf ! 2 = 0))
         else if remaining > 8 then
           (if \<not> index_ok buf 1 then Panic
            else Return (push_bit shift (buf ! 0) OR buf ! 1 = 0))
         else
           (if \<not> index_ok buf 0 then Panic
            else Return (push_bit shift (buf ! 0) = 0))))"

subsection \<open>Adaptive coder\<close>

text \<open>
  \<^verbatim>\<open>type CodeParameters byte\<close> with
  \<open>LastRiceQ = int(p & 3)\<close>, \<open>RiceOrder = int(p >> 5)\<close>, \<open>ExpOrder = int(p>>2) & 7\<close>.
\<close>

type_synonym CodeParameters = "8 word"

definition LastRiceQ :: "CodeParameters \<Rightarrow> int" where
  "LastRiceQ p = uint (p AND 3)"

definition RiceOrder :: "CodeParameters \<Rightarrow> int" where
  "RiceOrder p = uint (drop_bit 5 p)"

definition ExpOrder :: "CodeParameters \<Rightarrow> int" where
  "ExpOrder p = uint (drop_bit 2 p) mod 8"

text \<open>
  The table filled by \<open>init\<close>:
  \<^verbatim>\<open>for i := range expGolombSubexprs {
      p := CodeParameters(i)
      expGolombSubexprs[i] = -(1 << uint(p.ExpOrder())) + ((p.LastRiceQ() + 1) << uint(p.RiceOrder())) }\<close>
\<close>

definition expGolombSubexprs :: "int list" where
  "expGolombSubexprs =
     map (\<lambda>i. let p = (word_of_nat i :: CodeParameters)
              in - push_bit (nat (ExpOrder p)) 1 + push_bit (nat (RiceOrder p)) (LastRiceQ p + 1))
       [0..<256]"

text \<open>
  \<open>CodeParameters.Decode\<close>. When \<open>ReadInt\<close> returns \<open>false\<close> the Go code still assigns
  the destination before it returns \<open>false\<close>; that value is never read.
\<close>

definition Decode :: "CodeParameters \<Rightarrow> Bitstream \<Rightarrow> (int \<times> Bitstream) option go" where
  "Decode p bs =
     (case ReadSmallUnary bs of
        Panic \<Rightarrow> Panic
      | Return None \<Rightarrow> Return None
      | Return (Some (q, bs1)) \<Rightarrow>
          (let lastRiceQ = LastRiceQ p in
           if q > lastRiceQ then
             (let k = ExpOrder p;
                  bits = k - lastRiceQ + push_bit 1 q - q - 1
              in case ReadInt bs1 bits of
                   Panic \<Rightarrow> Panic
                 | Return None \<Rightarrow> Return None
                 | Return (Some (n, bs2)) \<Rightarrow>
                     Return (Some ((push_bit (nat bits) 1 OR n) + expGolombSubexprs ! unat p, bs2)))
           else
             (let k = RiceOrder p in
              if k \<noteq> 0 then
                (case ReadInt bs1 k of
                   Panic \<Rightarrow> Panic
                 | Return None \<Rightarrow> Return None
                 | Return (Some (r, bs2)) \<Rightarrow> Return (Some (push_bit (nat k) q + r, bs2)))
              else Return (Some (q, bs1)))))"

subsection \<open>Coefficient decoder\<close>

text \<open>
  The coefficient buffer \<open>*[MaxBlocksPerSlice][64]int16\<close> is a list of 32 lists of 64
  words. The idiom
  \<^verbatim>\<open>params := table[len(table)-1]
  if v < len(table) { params = table[v] }\<close>
  is \<open>next_params\<close>; a negative \<open>v\<close> would panic.
\<close>

type_synonym coefficients = "16 word list list"

definition MaxBlocksPerSlice :: int where
  "MaxBlocksPerSlice = 32"

definition next_params :: "CodeParameters list \<Rightarrow> int \<Rightarrow> CodeParameters go" where
  "next_params table v =
     (if v < int (length table) then
        (if \<not> index_ok table v then Panic else Return (table ! nat v))
      else Return (table ! (length table - 1)))"

definition store :: "coefficients \<Rightarrow> int \<Rightarrow> int \<Rightarrow> 16 word \<Rightarrow> coefficients go" where
  "store dest block i v =
     (if \<not> (0 \<le> block \<and> block < MaxBlocksPerSlice) \<or> \<not> (0 \<le> i \<and> i < 64) then Panic
      else Return (dest[nat block := (dest ! nat block)[nat i := v]]))"

definition dcCodeParams :: "CodeParameters list" where
  "dcCodeParams = [0x04, 0x28, 0x28, 0x4D, 0x4D, 0x70, 0x70]"

definition acRunCodeParams :: "CodeParameters list" where
  "acRunCodeParams =
     [0x06, 0x06, 0x05, 0x05, 0x04, 0x29, 0x29, 0x29, 0x29, 0x28, 0x28, 0x28, 0x28, 0x28, 0x28, 0x4c]"

definition acLevelCodeParams :: "CodeParameters list" where
  "acLevelCodeParams = [0x04, 0x0a, 0x05, 0x06, 0x04, 0x28, 0x28, 0x28, 0x28, 0x4c]"

text \<open>
  The loop of \<open>decodeDCCoefficients\<close> from \<open>i\<close> on, with the local variables \<open>code\<close>,
  \<open>sign\<close> and \<open>prev\<close>. The result is the error message, or the buffer and the reader
  as the function leaves them.
\<close>

function decodeDC_loop ::
  "Bitstream \<Rightarrow> coefficients \<Rightarrow> int \<Rightarrow> int \<Rightarrow> int \<Rightarrow> int \<Rightarrow> int
     \<Rightarrow> (string + coefficients \<times> Bitstream) go" where
  "decodeDC_loop bs dest numberOfBlocks i code sign prev =
     (if i < numberOfBlocks then
        (case next_params dcCodeParams code of
           Panic \<Rightarrow> Panic
         | Return params \<Rightarrow>
             (case Decode params bs of
                Panic \<Rightarrow> Panic
              | Return None \<Rightarrow> Return (Inl ''unable to decode codeword'')
              | Return (Some (code', bs')) \<Rightarrow>
                  (let sign' = (if code' \<noteq> 0 then sign XOR - (code' AND 1) else 0);
                       prev' = prev + ((drop_bit 1 (code' + 1) XOR sign') - sign')
                   in case store dest i 0 (word_of_int prev') of
                        Panic \<Rightarrow> Panic
                      | Return dest' \<Rightarrow>
                          decodeDC_loop bs' dest' numberOfBlocks (i + 1) code' sign' prev')))
      else Return (Inr (dest, bs)))"
  by pat_completeness auto
termination
  by (relation "measure (\<lambda>(bs, dest, numberOfBlocks, i, code, sign, prev). nat (numberOfBlocks - i))")
    auto

declare decodeDC_loop.simps [simp del]

definition decodeDCCoefficients ::
  "Bitstream \<Rightarrow> coefficients \<Rightarrow> int \<Rightarrow> (string + coefficients \<times> Bitstream) go" where
  "decodeDCCoefficients bs dest numberOfBlocks =
     (case Decode 0xb8 bs of
        Panic \<Rightarrow> Panic
      | Return None \<Rightarrow> Return (Inl ''unable to decode initial codeword'')
      | Return (Some (code, bs')) \<Rightarrow>
          (let prev = drop_bit 1 code XOR - (code AND 1)
           in case store dest 0 0 (word_of_int prev) of
                Panic \<Rightarrow> Panic
              | Return dest' \<Rightarrow> decodeDC_loop bs' dest' numberOfBlocks 1 5 0 prev))"

text \<open>
  The loop of \<open>decodeACCoefficients\<close>, with the local variables \<open>run\<close>, \<open>level\<close> and
  \<open>pos\<close>. \<open>scanOrder[pos>>log2BlockCount]\<close> is an index expression on a slice and
  panics out of range. The function writes through the pointer \<open>dest\<close> and returns an
  \<open>error\<close>: the result is the error (\<open>None\<close> for \<open>nil\<close>) together with the buffer as the
  call leaves it, which on an error holds what was written before.
\<close>

function decodeAC_loop ::
  "Bitstream \<Rightarrow> coefficients \<Rightarrow> int \<Rightarrow> int list \<Rightarrow> nat \<Rightarrow> int \<Rightarrow> int \<Rightarrow> int \<Rightarrow> int
     \<Rightarrow> (string option \<times> coefficients) go" where
  "decodeAC_loop bs dest numberOfBlocks scanOrder log2BlockCount blockMask run level pos =
     (case EndOfData bs of
        Panic \<Rightarrow> Panic
      | Return True \<Rightarrow> Return (None, dest)
      | Return False \<Rightarrow>
          (case next_params acRunCodeParams run of
             Panic \<Rightarrow> Panic
           | Return params \<Rightarrow>
          (case Decode params bs of
             Panic \<Rightarrow> Panic
           | Return None \<Rightarrow> Return (Some ''unable to decode run bits'', dest)
           | Return (Some (run', bs1)) \<Rightarrow>
          (let pos' = pos + (run' + 1) in
           case next_params acLevelCodeParams level of
             Panic \<Rightarrow> Panic
           | Return params' \<Rightarrow>
          (case Decode params' bs1 of
             Panic \<Rightarrow> Panic
           | Return None \<Rightarrow> Return (Some ''unable to decode level bits'', dest)
           | Return (Some (level0, bs2)) \<Rightarrow>
          (let level' = level0 + 1;
               block = pos' AND blockMask in
           if block \<ge> numberOfBlocks then Return (Some ''invalid coefficient position'', dest)
           else if \<not> index_ok scanOrder (drop_bit log2BlockCount pos') then Panic
           else
          (let i = scanOrder ! nat (drop_bit log2BlockCount pos') in
           case ReadBit bs2 of
             Panic \<Rightarrow> Panic
           | Return None \<Rightarrow> Return (Some ''unable to decode sign'', dest)
           | Return (Some (sign, bs3)) \<Rightarrow>
          (case store dest block i (word_of_int (if sign then - level' else level')) of
             Panic \<Rightarrow> Panic
           | Return dest' \<Rightarrow>
               decodeAC_loop bs3 dest' numberOfBlocks scanOrder log2BlockCount blockMask
                 run' level' pos'))))))))"
  by pat_completeness auto

text \<open>
  \<^verbatim>\<open>log2BlockCount := 31 - uint(bits.LeadingZeros32(uint32(numberOfBlocks)))\<close>,
  in 64-bit unsigned arithmetic.
\<close>

definition log2BlockCount :: "int \<Rightarrow> nat" where
  "log2BlockCount numberOfBlocks =
     unat ((31 :: 64 word) - word_of_int (LeadingZeros32 (word_of_int numberOfBlocks)))"

definition decodeACCoefficients ::
  "Bitstream \<Rightarrow> coefficients \<Rightarrow> int \<Rightarrow> int list \<Rightarrow> (string option \<times> coefficients) go" where
  "decodeACCoefficients bs dest numberOfBlocks scanOrder =
     decodeAC_loop bs dest numberOfBlocks scanOrder (log2BlockCount numberOfBlocks)
       (numberOfBlocks - 1) 4 2 (numberOfBlocks - 1)"

text \<open>
  \<open>decodeCoefficients\<close> makes a reader at offset 0 over the channel's bytes and runs
  both passes; \<open>errors.Wrap\<close> prefixes the message.
\<close>

definition Wrap :: "string \<Rightarrow> string \<Rightarrow> string" where
  "Wrap err message = message @ '': '' @ err"

definition decodeCoefficients ::
  "coefficients \<Rightarrow> 8 word list \<Rightarrow> int \<Rightarrow> int list \<Rightarrow> (string + coefficients) go" where
  "decodeCoefficients coeffs b numberOfBlocks scanOrder =
     (case decodeDCCoefficients \<lparr>Offset = 0, Bytes = b\<rparr> coeffs numberOfBlocks of
        Panic \<Rightarrow> Panic
      | Return (Inl err) \<Rightarrow> Return (Inl (Wrap err ''unable to decode dc coefficients''))
      | Return (Inr (coeffs', bs)) \<Rightarrow>
          (case decodeACCoefficients bs coeffs' numberOfBlocks scanOrder of
             Panic \<Rightarrow> Panic
           | Return (Some err, coeffs'') \<Rightarrow>
               Return (Inl (Wrap err ''unable to decode ac coefficients''))
           | Return (None, coeffs'') \<Rightarrow> Return (Inr coeffs'')))"

subsection \<open>Scan orders\<close>

definition ProgressiveScanOrder :: "int list" where
  "ProgressiveScanOrder =
     [0, 1, 8, 9, 2, 3, 10, 11,
      16, 17, 24, 25, 18, 19, 26, 27,
      4, 5, 12, 20, 13, 6, 7, 14,
      21, 28, 29, 22, 15, 23, 30, 31,
      32, 33, 40, 48, 41, 34, 35, 42,
      49, 56, 57, 50, 43, 36, 37, 44,
      51, 58, 59, 52, 45, 38, 39, 46,
      53, 60, 61, 54, 47, 55, 62, 63]"

definition InterlacedScanOrder :: "int list" where
  "InterlacedScanOrder =
     [0, 8, 1, 9, 16, 24, 17, 25,
      2, 10, 3, 11, 18, 26, 19, 27,
      32, 40, 33, 34, 41, 48, 56, 49,
      42, 35, 43, 50, 57, 58, 51, 59,
      4, 12, 5, 6, 13, 20, 28, 21,
      14, 7, 15, 22, 29, 36, 44, 37,
      30, 23, 31, 38, 45, 52, 60, 53,
      46, 39, 47, 54, 61, 62, 55, 63]"

subsection \<open>The bits of a stream\<close>

text \<open>
  The reference reading of a byte buffer, against which the reader is compared: the bits
  of each byte from the most significant down, byte after byte; the unconsumed bits of
  a reader; the unsigned value of a bit string read most significant bit first; and
  the number of zeros in front of the first 1.
\<close>

definition byte_bits :: "8 word \<Rightarrow> bool list" where
  "byte_bits b = rev (map (bit b) [0..<8])"

definition all_bits :: "8 word list \<Rightarrow> bool list" where
  "all_bits bytes = concat (map byte_bits bytes)"

definition stream_bits :: "Bitstream \<Rightarrow> bool list" where
  "stream_bits bs = drop (nat (Offset bs)) (all_bits (Bytes bs))"

definition bits_value :: "bool list \<Rightarrow> int" where
  "bits_value xs = foldl (\<lambda>acc b. 2 * acc + of_bool b) 0 xs"

definition unary_prefix :: "bool list \<Rightarrow> nat option" where
  "unary_prefix xs = (if True \<in> set xs then Some (length (takeWhile Not xs)) else None)"

text \<open>The \<open>n\<close> low bits of a word, most significant first.\<close>

definition word_bits :: "nat \<Rightarrow> 'a::len word \<Rightarrow> bool list" where
  "word_bits n w = rev (map (bit w) [0..<n])"

subsection \<open>Reference decoding of one codeword\<close>

text \<open>
  The hybrid code as the specification words it, read from a bit string: the three
  fields of the descriptor (\<open>rice_order\<close> = bits 5..7, \<open>exp_order\<close> = bits 2..4,
  \<open>rice_switch\<close> = bits 0..1), the offset of the Exp-Golomb tail, and the value of the
  next codeword together with the number of bits it occupies.
\<close>

definition rice_order :: "8 word \<Rightarrow> nat" where
  "rice_order p = unat (take_bit 3 (drop_bit 5 p))"

definition exp_order :: "8 word \<Rightarrow> nat" where
  "exp_order p = unat (take_bit 3 (drop_bit 2 p))"

definition rice_switch :: "8 word \<Rightarrow> nat" where
  "rice_switch p = unat (take_bit 2 p)"

definition offset :: "8 word \<Rightarrow> int" where
  "offset p = - (2 ^ exp_order p) + (int (rice_switch p) + 1) * 2 ^ rice_order p"

definition codeword_value :: "8 word \<Rightarrow> bool list \<Rightarrow> (int \<times> nat) option" where
  "codeword_value p xs =
     (case unary_prefix xs of
        None \<Rightarrow> None
      | Some q \<Rightarrow>
          (let rest = drop (q + 1) xs in
           if q \<le> rice_switch p then
             (if rice_order p = 0 then Some (int q, q + 1)
              else if length rest < rice_order p then None
              else Some (push_bit (rice_order p) (int q) OR bits_value (take (rice_order p) rest),
                         q + 1 + rice_order p))
           else
             (let w = nat (int (exp_order p) - int (rice_switch p) + int q - 1) in
              if length rest < w then None
              else Some ((push_bit w 1 OR bits_value (take w rest)) + offset p, q + 1 + w))))"

subsection \<open>Reference DC decoding\<close>

text \<open>
  The DC pass in two stages. First the codewords of the differentials, read one after the
  other, each under the entry of the 7-entry table for the key it is given, the key of
  the next one being the code just read (clipped to the last entry). Then the values:
  the first DC is the first codeword with sign and magnitude de-interleaved; each
  differential updates the running sign and is added to the previous DC.
\<close>

fun dc_codes :: "nat \<Rightarrow> int \<Rightarrow> Bitstream \<Rightarrow> (int list \<times> Bitstream) option go" where
  "dc_codes 0 key bs = Return (Some ([], bs))"
| "dc_codes (Suc n) key bs =
     (case Decode (dcCodeParams ! nat (min key 6)) bs of
        Panic \<Rightarrow> Panic
      | Return None \<Rightarrow> Return None
      | Return (Some (code, bs')) \<Rightarrow>
          (case dc_codes n code bs' of
             Panic \<Rightarrow> Panic
           | Return None \<Rightarrow> Return None
           | Return (Some (codes, bs'')) \<Rightarrow> Return (Some (code # codes, bs''))))"

fun dc_differences :: "int \<Rightarrow> int list \<Rightarrow> int list" where
  "dc_differences sign [] = []"
| "dc_differences sign (code # codes) =
     (let sign' = (if code \<noteq> 0 then sign XOR - (code AND 1) else 0)
      in ((drop_bit 1 (code + 1) XOR sign') - sign') # dc_differences sign' codes)"

fun running_sums :: "int \<Rightarrow> int list \<Rightarrow> int list" where
  "running_sums prev [] = []"
| "running_sums prev (d # ds) = (prev + d) # running_sums (prev + d) ds"

definition first_dc :: "int \<Rightarrow> int" where
  "first_dc x = drop_bit 1 x XOR - (x AND 1)"

definition dc_values :: "int \<Rightarrow> int list \<Rightarrow> int list" where
  "dc_values code0 codes =
     first_dc code0 # running_sums (first_dc code0) (dc_differences 0 codes)"

text \<open>
  The DC values of \<open>n\<close> blocks as the claim words them: the first under \<open>B8\<close>, every
  later one keyed by the code decoded before it.
\<close>

definition claimed_dc_values :: "Bitstream \<Rightarrow> nat \<Rightarrow> int list option" where
  "claimed_dc_values bs n =
     (case Decode 0xb8 bs of
        Return (Some (code0, bs1)) \<Rightarrow>
          (case dc_codes (n - 1) code0 bs1 of
             Return (Some (codes, bs2)) \<Rightarrow> Some (dc_values code0 codes)
           | _ \<Rightarrow> None)
      | _ \<Rightarrow> None)"

text \<open>Writing a list of values into entry 0 of consecutive blocks, as \<open>int16\<close>.\<close>

fun store_dcs :: "coefficients \<Rightarrow> nat \<Rightarrow> int list \<Rightarrow> coefficients" where
  "store_dcs dest i [] = dest"
| "store_dcs dest i (v # vs) =
     store_dcs (dest[i := (dest ! i)[0 := word_of_int v]]) (Suc i) vs"

subsection \<open>Picture assembler: the walk over the slice table\<close>






















section \<open>Theorems\<close>

subsection \<open>\<open>clamp10bit\<close>\<close>

lemma signed_drop_bit_31:
  "signed_drop_bit 31 (w :: 32 word) = (if sint w < 0 then - 1 else 0)"
proof -
  have b: "bit w 31 \<longleftrightarrow> sint w < 0"
    using bit_last_iff [of w] by simp
  show ?thesis
    by (rule bit_word_eqI) (auto simp add: bit_signed_drop_bit_iff b [symmetric] not_le)
qed

lemma sint_of_small:
  assumes "uint (n :: 32 word) < 2147483648"
  shows "sint n = uint n"
proof -
  have "- (2 ^ 31) \<le> (0 :: int)"
    by simp
  also have "0 \<le> uint n"
    by simp
  finally have "- (2 ^ 31) \<le> uint n" .
  moreover have "uint n < 2 ^ 31"
    using assms by simp
  ultimately have "signed_take_bit 31 (uint n) = uint n"
    by (rule signed_take_bit_int_eq_self)
  then show ?thesis
    by (simp add: sint_uint)
qed

lemma uint_of_nonneg: "0 \<le> sint (n :: 32 word) \<Longrightarrow> uint n = sint n"
  using sint_lt [of n] by (simp add: uint_sint [of n] take_bit_int_eq_self)

lemma high_bits_zero_iff:
  "(n :: 32 word) AND 0xfffffc00 = 0 \<longleftrightarrow> 0 \<le> sint n \<and> sint n \<le> 1023"
proof -
  have m: "(0xfffffc00 :: 32 word) = NOT (mask 10)"
    by (simp add: mask_eq_exp_minus_1)
  have "n AND NOT (mask 10) = 0 \<longleftrightarrow> take_bit 10 n = n"
    by (auto simp add: bit_eq_iff bit_simps)
  also have "\<dots> \<longleftrightarrow> take_bit 10 (uint n) = uint n"
    by (simp add: word_uint_eq_iff unsigned_take_bit_eq)
  also have "\<dots> \<longleftrightarrow> uint n < 1024"
    by (simp add: take_bit_int_eq_self_iff)
  also have "\<dots> \<longleftrightarrow> 0 \<le> sint n \<and> sint n \<le> 1023"
    using sint_of_small [of n] uint_of_nonneg [of n] by auto
  finally show ?thesis by (simp add: m)
qed

lemma sint_minus_32:
  assumes "sint (n :: 32 word) \<noteq> - 2147483648"
  shows "sint (- n) = - sint n"
proof -
  have "- 2147483648 \<le> sint n" "sint n < 2147483648"
    using sint_ge [of n] sint_lt [of n] by simp_all
  with assms have "- (2 ^ 31) \<le> - sint n" "- sint n < 2 ^ 31"
    by simp_all
  then have "signed_take_bit 31 (- sint n) = - sint n"
    by (rule signed_take_bit_int_eq_self)
  then show ?thesis
    by (simp add: sint_word_minus)
qed

text \<open>
  Away from the least \<open>int32\<close>, \<open>clamp10bit\<close> is the clamp to \<open>[0, 1023]\<close>.
\<close>

lemma clamp10bit_above_min:
  assumes "sint n \<noteq> - 2147483648"
  shows "uint (clamp10bit n) =
    (if sint n < 0 then 0 else if 1023 < sint n then 1023 else sint n)"
proof (cases "0 \<le> sint n \<and> sint n \<le> 1023")
  case True
  then have z: "n AND 0xfffffc00 = 0"
    by (simp add: high_bits_zero_iff)
  have u: "uint n = sint n"
    using True by (simp add: uint_of_nonneg)
  have "uint (ucast n :: 16 word) = take_bit 16 (uint n)"
    by (simp add: unsigned_ucast_eq unsigned_take_bit_eq)
  also have "\<dots> = uint n"
    using True u by (simp add: take_bit_int_eq_self)
  finally show ?thesis
    using z True u by (simp add: clamp10bit_def)
next
  case False
  then have nz: "n AND 0xfffffc00 \<noteq> 0"
    by (simp add: high_bits_zero_iff)
  have "sint (- n) < 0 \<longleftrightarrow> 0 < sint n"
    using sint_minus_32 [OF assms] by simp
  moreover have "(ucast (- 1 :: 32 word) :: 16 word) AND 1023 = 1023"
    by code_simp
  ultimately show ?thesis
    using nz False by (auto simp add: clamp10bit_def signed_drop_bit_31)
qed

text \<open>
  C1. The claim: \<open>clamp10bit n\<close> is 0 for every negative 32-bit \<open>n\<close>, 1023 for every
  \<open>n\<close> above 1023, and \<open>n\<close> otherwise. At the least \<open>int32\<close>, \<open>- 2 ^ 31\<close>, the negation
  \<open>-n\<close> wraps back to \<open>- 2 ^ 31\<close>, the arithmetic shift gives \<open>-1\<close>, and the function
  returns 1023 for a negative input.
\<close>

theorem clamp10bit_least_int32:
  "sint (0x80000000 :: 32 word) = - 2147483648 \<and> clamp10bit 0x80000000 = 1023"
  by (simp add: clamp10bit_def) code_simp

subsection \<open>Quantisation scale\<close>

lemma sint_word_of_int_32:
  assumes "- 2147483648 \<le> k" "k < 2147483648"
  shows "sint (word_of_int k :: 32 word) = k"
proof -
  have "- (2 ^ 31) \<le> k" "k < 2 ^ 31"
    using assms by simp_all
  then have "signed_take_bit 31 k = k"
    by (rule signed_take_bit_int_eq_self)
  then show ?thesis
    by (simp add: sint_sbintrunc')
qed

lemma sint_qScale:
  assumes "0 \<le> QI" "QI \<le> 255"
  shows "sint (qScale QI) = (if QI < 129 then QI else 128 + 4 * (QI - 128))"
proof (cases "QI \<ge> 129")
  case True
  have "qScale QI = word_of_int (128 + 4 * (QI - 128))"
    using True by (simp add: qScale_def)
  moreover have "sint (word_of_int (128 + 4 * (QI - 128)) :: 32 word) = 128 + 4 * (QI - 128)"
    using True assms by (intro sint_word_of_int_32) simp_all
  ultimately show ?thesis
    using True by simp
next
  case False
  then show ?thesis
    using assms by (simp add: qScale_def sint_word_of_int_32)
qed

lemma sint_scast_8_32: "sint (scast (a :: 8 word) :: 32 word) = sint a"
  by (simp add: sint_up_scast is_up)

lemma sint_int8_times:
  fixes a :: "8 word" and q :: "32 word"
  assumes "0 \<le> sint q" "sint q \<le> 65536"
  shows "sint (scast a * q) = sint a * sint q"
proof -
  have a: "- 128 \<le> sint a" "sint a < 128"
    using sint_ge [of a] sint_lt [of a] by simp_all
  have "sint a * sint q \<le> 128 * sint q"
    using a assms by (intro mult_right_mono) simp_all
  moreover have "- 128 * sint q \<le> sint a * sint q"
    using a assms by (intro mult_right_mono) simp_all
  ultimately have "- (2 ^ 31) \<le> sint a * sint q" "sint a * sint q < 2 ^ 31"
    using assms by simp_all
  then have "signed_take_bit 31 (sint a * sint q) = sint a * sint q"
    by (rule signed_take_bit_int_eq_self)
  then show ?thesis
    by (simp add: sint_word_mult sint_scast_8_32)
qed

text \<open>
  C8. For a quantisation index \<open>QI\<close> in \<open>1..224\<close> the scale is \<open>QI\<close> below 128 and
  \<open>128 + 4 (QI - 128)\<close> from 128 on (the code switches at 129, where both agree);
  the four fixtures hold; and every entry of the scaled matrix is the product of the
  matrix entry and the scale, without overflow in 32 bits.
\<close>

theorem qScale_and_scaledMatrix:
  assumes "1 \<le> QI" "QI \<le> 224" "length qMatrix = 64"
  shows "sint (qScale QI) = (if QI < 128 then QI else 128 + 4 * (QI - 128))
    \<and> qScale 1 = 1 \<and> qScale 128 = 128 \<and> qScale 129 = 132 \<and> qScale 224 = 512
    \<and> (\<exists>mat. scaledMatrix qMatrix (qScale QI) = Return mat \<and> length mat = 64
          \<and> (\<forall>i<64. sint (mat ! i) = sint (qMatrix ! i) * sint (qScale QI)))"
proof -
  have s: "sint (qScale QI) = (if QI < 128 then QI else 128 + 4 * (QI - 128))"
    using assms sint_qScale [of QI] by auto
  have b: "0 \<le> sint (qScale QI)" "sint (qScale QI) \<le> 65536"
    using assms by (auto simp add: s)
  have f: "qScale 1 = 1 \<and> qScale 128 = 128 \<and> qScale 129 = 132 \<and> qScale 224 = 512"
    by (simp add: qScale_def)
  have m: "\<exists>mat. scaledMatrix qMatrix (qScale QI) = Return mat \<and> length mat = 64
          \<and> (\<forall>i<64. sint (mat ! i) = sint (qMatrix ! i) * sint (qScale QI))"
    using assms(3) b by (simp add: scaledMatrix_def sint_int8_times)
  from s f m show ?thesis by blast
qed

theorem qScale_and_scaledMatrix_witness:
  "(1 :: int) \<le> 129 \<and> (129 :: int) \<le> 224 \<and> length (replicate 64 (4 :: 8 word)) = 64
   \<and> sint (qScale 129) = 132
   \<and> (\<exists>mat. scaledMatrix (replicate 64 4) (qScale 129) = Return mat \<and> length mat = 64
          \<and> (\<forall>i<64. sint (mat ! i) = 528))"
proof -
  have h: "(1 :: int) \<le> 129" "(129 :: int) \<le> 224" "length (replicate 64 (4 :: 8 word)) = 64"
    by simp_all
  note t = qScale_and_scaledMatrix [OF h]
  from t have q: "sint (qScale 129) = 132"
    by simp
  from t obtain mat where m: "scaledMatrix (replicate 64 4) (qScale 129) = Return mat"
    "length mat = 64" "\<forall>i<64. sint (mat ! i) = sint (replicate 64 (4 :: 8 word) ! i) * sint (qScale 129)"
    by blast
  from m(3) q have "\<forall>i<64. sint (mat ! i) = 528"
    by simp
  with h q m(1,2) show ?thesis
    by blast
qed

subsection \<open>The readers advance\<close>

lemma ReadSmallUnary_loop_Some:
  assumes "ReadSmallUnary_loop bs buf skipped i = Some (d, bs')"
    and "1 \<le> i" and "skipped \<le> 7"
  shows "1 \<le> d \<and> bs' = bs\<lparr>Offset := Offset bs + d + 1\<rparr>"
  using assms
proof (induction bs buf skipped i rule: ReadSmallUnary_loop.induct)
  case (1 bs buf skipped i)
  show ?case
  proof (cases "i < length buf \<and> buf ! i = 0")
    case True
    with "1.prems" have "ReadSmallUnary_loop bs buf skipped (i + 1) = Some (d, bs')"
      by (simp add: ReadSmallUnary_loop.simps [of bs buf skipped i])
    with "1.IH" True "1.prems" show ?thesis
      by simp
  next
    case False
    with "1.prems" show ?thesis
      by (auto simp add: ReadSmallUnary_loop.simps [of bs buf skipped i] LeadingZeros8_def Let_def
          split: if_splits)
  qed
qed

lemma ReadSmallUnary_Some:
  assumes "ReadSmallUnary bs = Return (Some (d, bs'))"
  shows "0 \<le> d \<and> bs' = bs\<lparr>Offset := Offset bs + d + 1\<rparr>"
proof (cases "ReadSmallUnary_loop bs (drop (nat (Offset bs div 8)) (Bytes bs)) (Offset bs mod 8) 1
    = Some (d, bs')")
  case True
  have "Offset bs mod 8 \<le> 7"
    by simp
  from ReadSmallUnary_loop_Some [OF True _ this] show ?thesis
    by simp
next
  case False
  with assms show ?thesis
    by (auto simp add: ReadSmallUnary_def Let_def LeadingZeros64_def LeadingZeros8_def
        split: if_splits)
qed

lemma ReadInt_Some:
  assumes "ReadInt bs n = Return (Some (v, bs'))"
  shows "bs' = bs\<lparr>Offset := Offset bs + n\<rparr>"
  using assms by (auto simp add: ReadInt_def Let_def split: if_splits)

lemma ReadBit_Some:
  assumes "ReadBit bs = Return (Some (v, bs'))"
  shows "bs' = bs\<lparr>Offset := Offset bs + 1\<rparr>"
  using assms by (auto simp add: ReadBit_def split: if_splits)

lemma ExpOrder_nonneg: "0 \<le> ExpOrder p"
  by (simp add: ExpOrder_def)

lemma RiceOrder_nonneg: "0 \<le> RiceOrder p"
  by (simp add: RiceOrder_def)

lemma Decode_Some:
  assumes "Decode p bs = Return (Some (v, bs'))"
  shows "Bytes bs' = Bytes bs \<and> Offset bs < Offset bs'"
proof -
  from assms obtain q bs1 where u: "ReadSmallUnary bs = Return (Some (q, bs1))"
    by (auto simp add: Decode_def split: go.splits option.splits)
  note u1 = ReadSmallUnary_Some [OF u]
  show ?thesis
  proof (cases "q > LastRiceQ p")
    case True
    with assms u obtain n where
      r: "ReadInt bs1 (ExpOrder p - LastRiceQ p + push_bit 1 q - q - 1) = Return (Some (n, bs'))"
      by (auto simp add: Decode_def Let_def split: go.splits option.splits)
    have "0 \<le> ExpOrder p - LastRiceQ p + push_bit 1 q - q - 1"
      using True ExpOrder_nonneg [of p] by (simp add: push_bit_eq_mult)
    with ReadInt_Some [OF r] u1 show ?thesis
      by simp
  next
    case False
    show ?thesis
    proof (cases "RiceOrder p = 0")
      case True
      with False assms u u1 show ?thesis
        by (auto simp add: Decode_def Let_def)
    next
      case nz: False
      with False assms u obtain r where
        r: "ReadInt bs1 (RiceOrder p) = Return (Some (r, bs'))"
        by (auto simp add: Decode_def Let_def split: go.splits option.splits)
      with ReadInt_Some [OF r] u1 RiceOrder_nonneg [of p] show ?thesis
        by simp
    qed
  qed
qed

lemma EndOfData_False:
  assumes "EndOfData bs = Return False"
  shows "0 < RemainingBits bs"
  using assms by (auto simp add: EndOfData_def Let_def split: if_splits)

text \<open>
  Every round of the coefficient loop consumes at least three bits, and the loop stops
  when none is left.
\<close>

termination decodeAC_loop
  apply (relation "measure (\<lambda>(bs, dest, numberOfBlocks, scanOrder, log2, blockMask, run, level, pos).
    nat (RemainingBits bs))")
   apply simp
  apply (auto dest!: Decode_Some ReadBit_Some EndOfData_False simp add: RemainingBits_def)
  done

declare decodeAC_loop.simps [simp del]

subsection \<open>Scan index overflow in AC decoding\<close>

text \<open>
  One round of the loop with a position whose scan index is beyond the table: the run
  and the level are decoded, the position check passes, and the index expression
  \<open>scanOrder[pos>>log2BlockCount]\<close> panics.
\<close>

lemma decodeAC_loop_scan_overflow:
  assumes "EndOfData bs = Return False"
    and "next_params acRunCodeParams run = Return params"
    and "Decode params bs = Return (Some (run', bs1))"
    and "next_params acLevelCodeParams level = Return params'"
    and "Decode params' bs1 = Return (Some (level0, bs2))"
    and "(pos + (run' + 1)) AND blockMask < numberOfBlocks"
    and "int (length scanOrder) \<le> drop_bit log2B (pos + (run' + 1))"
  shows "decodeAC_loop bs dest numberOfBlocks scanOrder log2B blockMask run level pos = Panic"
  using assms
  by (simp add: decodeAC_loop.simps [of bs dest numberOfBlocks scanOrder log2B blockMask run level pos]
      Let_def index_ok_def)

text \<open>
  C5. The claim: when \<open>pos >> log2B\<close> exceeds 63 the decode fails by returning an error
  value. For a luma channel of one macroblock (four blocks) with the bytes
  \<open>82 30 08 04\<close>, the four DC codewords are 0 (12 bits), the first AC run is 255, so
  \<open>pos = 259\<close> and \<open>pos >> 2 = 64\<close>: \<open>decodeCoefficients\<close> does not return an error, it
  panics.
\<close>

theorem decodeCoefficients_scan_overflow_panics:
  "decodeCoefficients (replicate 32 (replicate 64 0)) [0x82, 0x30, 0x08, 0x04] 4
     ProgressiveScanOrder = Panic"
  by code_simp

subsection \<open>Bit lists of a buffer\<close>

lemma length_byte_bits [simp]: "length (byte_bits b) = 8"
  by (simp add: byte_bits_def)

lemma length_all_bits [simp]: "length (all_bits bytes) = 8 * length bytes"
  by (induction bytes) (simp_all add: all_bits_def)

lemma all_bits_Nil [simp]: "all_bits [] = []"
  by (simp add: all_bits_def)

lemma all_bits_Cons [simp]: "all_bits (b # bytes) = byte_bits b @ all_bits bytes"
  by (simp add: all_bits_def)

lemma all_bits_drop: "all_bits (drop n bytes) = drop (8 * n) (all_bits bytes)"
proof (induction bytes arbitrary: n)
  case Nil
  show ?case by simp
next
  case (Cons b bytes)
  show ?case
  proof (cases n)
    case 0
    then show ?thesis by simp
  next
    case (Suc m)
    with Cons [of m] show ?thesis by simp
  qed
qed

lemma drop_byte_bits: "drop s (byte_bits b) = rev (map (bit b) [0..<8 - s])"
proof -
  have "drop s (rev (map (bit b) [0..<8])) = rev (take (8 - s) (map (bit b) [0..<8]))"
    by (simp add: drop_rev)
  also have "\<dots> = rev (map (bit b) [0..<8 - s])"
    by (simp add: take_map min_def)
  finally show ?thesis
    by (simp add: byte_bits_def)
qed

lemma no_one_drop_byte_bits:
  "True \<notin> set (drop s (byte_bits b)) \<longleftrightarrow> push_bit s b = 0"
proof -
  have "push_bit s b = 0 \<longleftrightarrow> (\<forall>n. \<not> (s \<le> n \<and> n < 8 \<and> bit b (n - s)))"
    by (auto simp add: bit_eq_iff bit_push_bit_iff)
  also have "\<dots> \<longleftrightarrow> (\<forall>m < 8 - s. \<not> bit b m)"
  proof
    assume a: "\<forall>n. \<not> (s \<le> n \<and> n < 8 \<and> bit b (n - s))"
    show "\<forall>m < 8 - s. \<not> bit b m"
    proof (intro allI impI)
      fix m assume "m < 8 - s"
      with a [rule_format, of "m + s"] show "\<not> bit b m" by simp
    qed
  next
    assume a: "\<forall>m < 8 - s. \<not> bit b m"
    show "\<forall>n. \<not> (s \<le> n \<and> n < 8 \<and> bit b (n - s))"
    proof (intro allI notI)
      fix n assume n: "s \<le> n \<and> n < 8 \<and> bit b (n - s)"
      then have "n - s < 8 - s" by arith
      with a n show False by blast
    qed
  qed
  also have "\<dots> \<longleftrightarrow> True \<notin> set (drop s (byte_bits b))"
    by (auto simp add: drop_byte_bits)
  finally show ?thesis by simp
qed

lemma no_one_byte_bits: "True \<notin> set (byte_bits b) \<longleftrightarrow> b = 0"
  using no_one_drop_byte_bits [of 0 b] by simp

lemma bits_list_4: "length xs = 4 \<Longrightarrow> xs = [xs ! 0, xs ! 1, xs ! 2, xs ! 3]"
  by (cases xs; cases "tl xs"; cases "tl (tl xs)"; cases "tl (tl (tl xs))") auto

lemma bits_list_3: "length xs = 3 \<Longrightarrow> xs = [xs ! 0, xs ! 1, xs ! 2]"
  by (cases xs; cases "tl xs"; cases "tl (tl xs)") auto

lemma bits_list_2: "length xs = 2 \<Longrightarrow> xs = [xs ! 0, xs ! 1]"
  by (cases xs; cases "tl xs") auto

lemma bits_list_1: "length xs = 1 \<Longrightarrow> xs = [xs ! 0]"
  by (cases xs) auto

lemma stream_bits_split:
  assumes "0 \<le> Offset bs"
  shows "stream_bits bs =
    drop (nat (Offset bs mod 8)) (all_bits (drop (nat (Offset bs div 8)) (Bytes bs)))"
proof -
  have "int (nat (Offset bs mod 8) + 8 * nat (Offset bs div 8)) = Offset bs"
    using assms by (simp add: pos_imp_zdiv_nonneg_iff)
  then have "nat (Offset bs) = nat (Offset bs mod 8) + 8 * nat (Offset bs div 8)"
    by linarith
  then show ?thesis
    by (simp add: stream_bits_def all_bits_drop)
qed

text \<open>
  C7. For a reader whose offset is not negative, \<open>EndOfData\<close> returns \<open>true\<close> exactly
  when fewer than 32 bits remain and none of the remaining bits is 1. So it never
  returns \<open>true\<close> while a 1-bit is left, and never panics.
\<close>

theorem EndOfData_spec:
  assumes "0 \<le> Offset bs"
  shows "EndOfData bs = Return (RemainingBits bs < 32 \<and> True \<notin> set (stream_bits bs))"
proof -
  define buf where "buf = drop (nat (Offset bs div 8)) (Bytes bs)"
  define s where "s = nat (Offset bs mod 8)"
  have s: "s < 8" "int s = Offset bs mod 8"
    by (simp_all add: s_def nat_less_iff)
  have sb: "stream_bits bs = drop s (all_bits buf)"
    using stream_bits_split [OF assms] by (simp add: buf_def s_def)
  consider (big) "32 \<le> RemainingBits bs" | (none) "RemainingBits bs \<le> 0"
    | (some) "0 < RemainingBits bs" "RemainingBits bs < 32"
    by linarith
  then show ?thesis
  proof cases
    case big
    then show ?thesis by (simp add: EndOfData_def)
  next
    case none
    then have "length (all_bits (Bytes bs)) \<le> nat (Offset bs)"
      using assms by (simp add: RemainingBits_def)
    then have "stream_bits bs = []"
      by (simp add: stream_bits_def)
    with none show ?thesis by (simp add: EndOfData_def)
  next
    case some
    have d: "Offset bs div 8 < int (length (Bytes bs))" "0 \<le> Offset bs div 8"
      using some assms by (simp_all add: RemainingBits_def) 
    then have ok: "slice_ok (Bytes bs) (Offset bs div 8)"
      by (simp add: slice_ok_def)
    have lb: "int (length buf) = int (length (Bytes bs)) - Offset bs div 8"
      using d by (simp add: buf_def)
    have rem: "RemainingBits bs = 8 * int (length buf) - int s"
      unfolding lb s(2) RemainingBits_def by (simp add: algebra_simps minus_mult_div_eq_mod)
    have "length buf = 4 \<or> length buf = 3 \<or> length buf = 2 \<or> length buf = 1"
      using some s(1) rem by arith
    then consider (four) "length buf = 4" | (three) "length buf = 3" | (two) "length buf = 2"
      | (one) "length buf = 1"
      by blast
    then show ?thesis
    proof cases
      case four
      note l = bits_list_4 [OF four]
      have "all_bits buf = byte_bits (buf ! 0) @ byte_bits (buf ! 1) @ byte_bits (buf ! 2) @ byte_bits (buf ! 3)"
        by (subst l) simp
      then have "True \<notin> set (stream_bits bs) \<longleftrightarrow>
          push_bit s (buf ! 0) OR buf ! 1 OR buf ! 2 OR buf ! 3 = 0"
        using s(1) by (simp add: sb no_one_drop_byte_bits no_one_byte_bits or_eq_0_iff)
      then show ?thesis
        using some ok four rem s
        by (simp add: EndOfData_def Let_def index_ok_def flip: buf_def s_def)
    next
      case three
      note l = bits_list_3 [OF three]
      have "all_bits buf = byte_bits (buf ! 0) @ byte_bits (buf ! 1) @ byte_bits (buf ! 2)"
        by (subst l) simp
      then have "True \<notin> set (stream_bits bs) \<longleftrightarrow> push_bit s (buf ! 0) OR buf ! 1 OR buf ! 2 = 0"
        using s(1) by (simp add: sb no_one_drop_byte_bits no_one_byte_bits or_eq_0_iff)
      then show ?thesis
        using some ok three rem s
        by (simp add: EndOfData_def Let_def index_ok_def flip: buf_def s_def)
    next
      case two
      note l = bits_list_2 [OF two]
      have "all_bits buf = byte_bits (buf ! 0) @ byte_bits (buf ! 1)"
        by (subst l) simp
      then have "True \<notin> set (stream_bits bs) \<longleftrightarrow> push_bit s (buf ! 0) OR buf ! 1 = 0"
        using s(1) by (simp add: sb no_one_drop_byte_bits no_one_byte_bits or_eq_0_iff)
      then show ?thesis
        using some ok two rem s
        by (simp add: EndOfData_def Let_def index_ok_def flip: buf_def s_def)
    next
      case one
      note l = bits_list_1 [OF one]
      have "all_bits buf = byte_bits (buf ! 0)"
        by (subst l) simp
      then have "True \<notin> set (stream_bits bs) \<longleftrightarrow> push_bit s (buf ! 0) = 0"
        using s(1) by (simp add: sb no_one_drop_byte_bits)
      moreover have "buf \<noteq> []"
        using one by auto
      ultimately show ?thesis
        using some ok one rem s
        by (simp add: EndOfData_def Let_def index_ok_def flip: buf_def s_def)
    qed
  qed
qed
theorem EndOfData_spec_witness:
  "(0 :: int) \<le> Offset \<lparr>Offset = 5, Bytes = [0x08, 0x00]\<rparr>
   \<and> EndOfData \<lparr>Offset = 5, Bytes = [0x08, 0x00]\<rparr> = Return True
   \<and> RemainingBits \<lparr>Offset = 5, Bytes = [0x08, 0x00]\<rparr> < 32
   \<and> True \<notin> set (stream_bits \<lparr>Offset = 5, Bytes = [0x08, 0x00]\<rparr>)"
proof -
  have h: "(0 :: int) \<le> Offset \<lparr>Offset = 5, Bytes = [0x08, 0x00]\<rparr>"
    by simp
  have e: "EndOfData \<lparr>Offset = 5, Bytes = [0x08, 0x00]\<rparr> = Return True"
    by code_simp
  from EndOfData_spec [OF h] e h show ?thesis
    by simp
qed

subsection \<open>Words as bit lists\<close>

lemma length_word_bits [simp]: "length (word_bits n w) = n"
  by (simp add: word_bits_def)

lemma word_bits_Suc: "word_bits (Suc n) w = bit w n # word_bits n w"
  by (simp add: word_bits_def)

lemma nth_word_bits: "i < n \<Longrightarrow> word_bits n w ! i = bit w (n - 1 - i)"
  by (simp add: word_bits_def rev_nth)

lemma leading_zeros_takeWhile: "leading_zeros n w = length (takeWhile Not (word_bits n w))"
  by (induction n) (simp_all add: word_bits_Suc, simp add: word_bits_def)

lemma word_bits_8: "word_bits 8 b = byte_bits b"
  by (simp add: word_bits_def byte_bits_def)

lemma word_bits_push_bit:
  fixes w :: "'a::len word"
  assumes "s \<le> LENGTH('a)"
  shows "word_bits LENGTH('a) (push_bit s w) = drop s (word_bits LENGTH('a) w) @ replicate s False"
proof (rule nth_equalityI)
  show "length (word_bits LENGTH('a) (push_bit s w)) =
      length (drop s (word_bits LENGTH('a) w) @ replicate s False)"
    using assms by simp
next
  fix i assume "i < length (word_bits LENGTH('a) (push_bit s w))"
  then have i: "i < LENGTH('a)" by simp
  show "word_bits LENGTH('a) (push_bit s w) ! i =
      (drop s (word_bits LENGTH('a) w) @ replicate s False) ! i"
  proof (cases "i < LENGTH('a) - s")
    case True
    then have "LENGTH('a) - 1 - i - s = LENGTH('a) - 1 - (s + i)" "s \<le> LENGTH('a) - 1 - i"
      by arith+
    with True i show ?thesis
      by (simp add: nth_append nth_word_bits bit_push_bit_iff)
  next
    case False
    then have "\<not> s \<le> LENGTH('a) - 1 - i"
      using i by arith
    with False i assms show ?thesis
      by (simp add: nth_append nth_word_bits bit_push_bit_iff)
  qed
qed

lemma not_bit_byte: "8 \<le> n \<Longrightarrow> \<not> bit (b :: 8 word) n"
  by (auto dest: bit_imp_le_length)

lemma rev_map_upt_8: "rev (map f [0..<8]) = [f 7, f 6, f 5, f 4, f 3, f 2, f 1, f 0]"
  by (simp add: numeral_eq_Suc upt_rec)

lemma rev_map_upt_64:
  "rev (map f [0..<64]) = [f 63, f 62, f 61, f 60, f 59, f 58, f 57, f 56, f 55, f 54, f 53, f 52, f 51, f 50, f 49, f 48, f 47, f 46, f 45, f 44, f 43, f 42, f 41, f 40, f 39, f 38, f 37, f 36, f 35, f 34, f 33, f 32, f 31, f 30, f 29, f 28, f 27, f 26, f 25, f 24, f 23, f 22, f 21, f 20, f 19, f 18, f 17, f 16, f 15, f 14, f 13, f 12, f 11, f 10, f 9, f 8, f 7, f 6, f 5, f 4, f 3, f 2, f 1, f 0]"
  by (simp add: numeral_eq_Suc upt_rec)

lemma word_bits_64_bytes:
  "word_bits 64 (ReverseBytes64 (load_uint64 [b0, b1, b2, b3, b4, b5, b6, b7])) =
     byte_bits b0 @ byte_bits b1 @ byte_bits b2 @ byte_bits b3 @
     byte_bits b4 @ byte_bits b5 @ byte_bits b6 @ byte_bits b7"
  unfolding word_bits_def byte_bits_def rev_map_upt_8 rev_map_upt_64
  by (simp add: ReverseBytes64_def load_uint64_def byte_of_def bit_simps not_bit_byte)

subsection \<open>Unary prefixes\<close>

lemma takeWhile_zeros_one:
  "takeWhile Not (replicate z False @ True # rest) = replicate z False"
  by (induction z) simp_all

lemma unary_prefix_first_one:
  "unary_prefix (replicate z False @ True # rest) = Some z"
  by (simp add: unary_prefix_def takeWhile_zeros_one)

lemma unary_prefix_SomeD:
  assumes "unary_prefix xs = Some z"
  shows "xs = replicate z False @ True # drop (Suc z) xs"
proof -
  from assms have t: "True \<in> set xs" and z: "z = length (takeWhile Not xs)"
    by (auto simp add: unary_prefix_def split: if_splits)
  have "xs = takeWhile Not xs @ dropWhile Not xs"
    by simp
  moreover have "takeWhile Not xs = replicate z False"
    unfolding z by (rule replicate_length_same [symmetric]) (auto dest: set_takeWhileD)
  moreover have "dropWhile Not xs \<noteq> []"
    using t by (auto simp add: dropWhile_eq_Nil_conv)
  then have "dropWhile Not xs = True # tl (dropWhile Not xs)"
    using hd_dropWhile [of Not xs] by (cases "dropWhile Not xs") auto
  ultimately have e: "xs = replicate z False @ True # tl (dropWhile Not xs)"
    by simp
  have "drop (Suc z) xs = tl (dropWhile Not xs)"
    by (subst e) simp
  with e show ?thesis
    by simp
qed

lemma unary_prefix_append_one:
  "True \<in> set xs \<Longrightarrow> unary_prefix (xs @ ys) = unary_prefix xs"
  by (auto simp add: unary_prefix_def takeWhile_append1)

lemma unary_prefix_append_zeros:
  assumes "True \<notin> set xs"
  shows "unary_prefix (xs @ ys) = map_option (\<lambda>z. length xs + z) (unary_prefix ys)"
proof -
  have "takeWhile Not (xs @ ys) = xs @ takeWhile Not ys"
    using assms by (intro takeWhile_append2) auto
  with assms show ?thesis
    by (simp add: unary_prefix_def)
qed

lemma unary_prefix_take:
  assumes "unary_prefix xs = Some z" and "z < n"
  shows "unary_prefix (take n xs @ ys) = Some z"
proof -
  from unary_prefix_SomeD [OF assms(1)] obtain rest where xs: "xs = replicate z False @ True # rest"
    by blast
  obtain m where "n = z + Suc m"
    using assms(2) less_imp_Suc_add [of z n] by auto
  then have "take n xs @ ys = replicate z False @ True # (take m rest @ ys)"
    by (simp add: xs)
  then show ?thesis
    by (simp only: unary_prefix_first_one)
qed

subsection \<open>\<open>ReadSmallUnary\<close>\<close>

lemma all_bits_append: "all_bits (xs @ ys) = all_bits xs @ all_bits ys"
  by (simp add: all_bits_def)

lemma take_8_nth:
  assumes "8 \<le> length xs"
  shows "take 8 xs = [xs ! 0, xs ! 1, xs ! 2, xs ! 3, xs ! 4, xs ! 5, xs ! 6, xs ! 7]"
proof (rule nth_equalityI)
  show "length (take 8 xs) = length [xs ! 0, xs ! 1, xs ! 2, xs ! 3, xs ! 4, xs ! 5, xs ! 6, xs ! 7]"
    using assms by simp
next
  fix i assume "i < length (take 8 xs)"
  then have "i < 8" by simp
  then consider "i = 0" | "i = 1" | "i = 2" | "i = 3" | "i = 4" | "i = 5" | "i = 6" | "i = 7"
    by arith
  then show "take 8 xs ! i = [xs ! 0, xs ! 1, xs ! 2, xs ! 3, xs ! 4, xs ! 5, xs ! 6, xs ! 7] ! i"
    by cases simp_all
qed

lemma load_uint64_take: "load_uint64 buf = load_uint64 [buf ! 0, buf ! 1, buf ! 2, buf ! 3, buf ! 4, buf ! 5, buf ! 6, buf ! 7]"
  by (simp add: load_uint64_def)

lemma word_bits_64_load:
  assumes "8 \<le> length buf"
  shows "word_bits 64 (ReverseBytes64 (load_uint64 buf)) = take 64 (all_bits buf)"
proof -
  have "all_bits buf = all_bits (take 8 buf) @ all_bits (drop 8 buf)"
    by (simp flip: all_bits_append)
  moreover have "length (all_bits (take 8 buf)) = 64"
    using assms by simp
  ultimately have "take 64 (all_bits buf) = all_bits (take 8 buf)"
    by simp
  also have "\<dots> = word_bits 64 (ReverseBytes64 (load_uint64 buf))"
    by (subst load_uint64_take) (simp add: take_8_nth [OF assms] word_bits_64_bytes)
  finally show ?thesis by simp
qed

lemma LeadingZeros64_unary:
  assumes "8 \<le> length buf" and "s < 8"
    and "unary_prefix (drop s (all_bits buf)) = Some z" and "z + s < 64"
  shows "LeadingZeros64 (push_bit s (ReverseBytes64 (load_uint64 buf))) = int z"
proof -
  have "word_bits 64 (push_bit s (ReverseBytes64 (load_uint64 buf))) =
      drop s (take 64 (all_bits buf)) @ replicate s False"
    using assms(2) word_bits_push_bit [of s "ReverseBytes64 (load_uint64 buf)"]
    by (simp add: word_bits_64_load [OF assms(1)])
  also have "\<dots> = take (64 - s) (drop s (all_bits buf)) @ replicate s False"
    by (simp add: drop_take)
  finally have "unary_prefix (word_bits 64 (push_bit s (ReverseBytes64 (load_uint64 buf)))) = Some z"
    using unary_prefix_take [OF assms(3), of "64 - s" "replicate s False"] assms(4) by simp
  then show ?thesis
    by (simp add: LeadingZeros64_def leading_zeros_takeWhile unary_prefix_def split: if_splits)
qed

lemma ReadSmallUnary_fast:
  assumes "0 \<le> Offset bs" and "8 \<le> int (length (Bytes bs)) - Offset bs div 8"
    and "unary_prefix (stream_bits bs) = Some z" and "z + nat (Offset bs mod 8) < 64"
  shows "ReadSmallUnary bs = Return (Some (int z, bs\<lparr>Offset := Offset bs + int z + 1\<rparr>))"
proof -
  define buf where "buf = drop (nat (Offset bs div 8)) (Bytes bs)"
  define s where "s = nat (Offset bs mod 8)"
  have s: "s < 8"
    by (simp add: s_def nat_less_iff)
  have sb: "stream_bits bs = drop s (all_bits buf)"
    using stream_bits_split [OF assms(1)] by (simp add: buf_def s_def)
  have p: "0 \<le> Offset bs div 8"
    using assms(1) by (simp add: pos_imp_zdiv_nonneg_iff)
  have l: "8 \<le> length buf"
    using assms(2) p by (simp add: buf_def)
  have ok: "index_ok (Bytes bs) (Offset bs div 8)"
    using assms(2) p by (simp add: index_ok_def)
  have "LeadingZeros64 (push_bit s (ReverseBytes64 (load_uint64 buf))) = int z"
    using assms(3,4) by (intro LeadingZeros64_unary l s) (simp_all add: sb s_def)
  then show ?thesis
    using assms(2) ok by (simp add: ReadSmallUnary_def Let_def flip: buf_def s_def)
qed

lemma byte_bits_0: "byte_bits 0 = replicate 8 False"
  by (simp add: byte_bits_def rev_map_upt_8 eval_nat_numeral)

lemma LeadingZeros8_unary:
  assumes "b \<noteq> 0"
  shows "unary_prefix (byte_bits b) = Some (nat (LeadingZeros8 b))"
  using assms no_one_byte_bits [of b]
  by (simp add: unary_prefix_def LeadingZeros8_def leading_zeros_takeWhile word_bits_8)

lemma ReadSmallUnary_loop_spec:
  assumes "i \<le> length buf"
  shows "ReadSmallUnary_loop bs buf skipped i =
    (case unary_prefix (all_bits (drop i buf)) of
       None \<Rightarrow> None
     | Some z \<Rightarrow> Some (int z + 8 * int i - skipped,
         bs\<lparr>Offset := Offset bs + (int z + 8 * int i - skipped) + 1\<rparr>))"
  using assms
proof (induction bs buf skipped i rule: ReadSmallUnary_loop.induct)
  case (1 bs buf skipped i)
  show ?case
  proof (cases "i < length buf")
    case False
    with "1.prems" have "i = length buf"
      by simp
    then show ?thesis
      by (simp add: ReadSmallUnary_loop.simps [of bs buf skipped "length buf"] unary_prefix_def)
  next
    case True
    then have d: "all_bits (drop i buf) = byte_bits (buf ! i) @ all_bits (drop (Suc i) buf)"
      by (simp flip: Cons_nth_drop_Suc)
    show ?thesis
    proof (cases "buf ! i = 0")
      case z: True
      have "unary_prefix (all_bits (drop i buf)) =
          map_option (\<lambda>z. 8 + z) (unary_prefix (all_bits (drop (Suc i) buf)))"
        unfolding d z byte_bits_0
        using unary_prefix_append_zeros [of "replicate 8 False"] by simp
      moreover have "ReadSmallUnary_loop bs buf skipped i = ReadSmallUnary_loop bs buf skipped (i + 1)"
        using True z by (simp add: ReadSmallUnary_loop.simps [of bs buf skipped i])
      ultimately show ?thesis
        using "1.IH" True z by (simp split: option.splits add: algebra_simps)
    next
      case nz: False
      have "unary_prefix (all_bits (drop i buf)) = Some (nat (LeadingZeros8 (buf ! i)))"
        unfolding d using nz LeadingZeros8_unary [OF nz] no_one_byte_bits [of "buf ! i"]
        by (simp add: unary_prefix_append_one)
      moreover have "0 \<le> LeadingZeros8 (buf ! i)"
        by (simp add: LeadingZeros8_def)
      ultimately show ?thesis
        using True nz
        by (simp add: ReadSmallUnary_loop.simps [of bs buf skipped i] Let_def algebra_simps)
    qed
  qed
qed

lemma push_bit_masked:
  assumes "s < 8"
  shows "push_bit s ((b :: 8 word) AND drop_bit s 0xff) = push_bit s b"
proof (rule bit_word_eqI)
  fix n assume "n < LENGTH(8)"
  then have "n < 8" by simp
  have m: "(0xff :: 8 word) = - 1"
    by simp
  show "bit (push_bit s (b AND drop_bit s 0xff)) n = bit (push_bit s b) n"
    unfolding m using \<open>n < 8\<close> assms
    by (auto simp add: bit_simps dest: bit_imp_le_length)
qed

lemma masked_zero_iff:
  assumes "s < 8"
  shows "(b :: 8 word) AND drop_bit s 0xff = 0 \<longleftrightarrow> push_bit s b = 0"
proof
  assume "b AND drop_bit s 0xff = 0"
  then have "push_bit s (b AND drop_bit s 0xff) = push_bit s 0"
    by (simp only:)
  then show "push_bit s b = 0"
    unfolding push_bit_masked [OF assms] by simp
next
  assume z: "push_bit s b = 0"
  have m: "(0xff :: 8 word) = - 1"
    by simp
  show "b AND drop_bit s 0xff = 0"
  proof (rule bit_word_eqI)
    fix n assume "n < LENGTH(8)"
    then have n: "n < 8" by simp
    have "\<not> bit (push_bit s b) (n + s)"
      by (simp add: z)
    then have "n < 8 - s \<Longrightarrow> \<not> bit b n"
      by (simp add: bit_push_bit_iff add.commute less_diff_conv)
    then show "bit (b AND drop_bit s 0xff) n = bit (0 :: 8 word) n"
      unfolding m using n by (auto simp add: bit_simps)
  qed
qed

lemma ReadSmallUnary_slow:
  assumes "0 \<le> Offset bs" and "0 < int (length (Bytes bs)) - Offset bs div 8"
    and "int (length (Bytes bs)) - Offset bs div 8 < 8"
  shows "ReadSmallUnary bs = Return
    (case unary_prefix (stream_bits bs) of
       None \<Rightarrow> None
     | Some z \<Rightarrow> Some (int z, bs\<lparr>Offset := Offset bs + int z + 1\<rparr>))"
proof -
  define buf where "buf = drop (nat (Offset bs div 8)) (Bytes bs)"
  define s where "s = nat (Offset bs mod 8)"
  have s: "s < 8" "Offset bs mod 8 = int s"
    by (simp_all add: s_def nat_less_iff)
  have sb: "stream_bits bs = drop s (all_bits buf)"
    using stream_bits_split [OF assms(1)] by (simp add: buf_def s_def)
  have p: "0 \<le> Offset bs div 8"
    using assms(1) by (simp add: pos_imp_zdiv_nonneg_iff)
  have ok: "slice_ok (Bytes bs) (Offset bs div 8)"
    using assms(2) p by (simp add: slice_ok_def)
  have ne: "buf \<noteq> []"
    using assms(2) p by (simp add: buf_def)
  then have ok0: "index_ok buf 0"
    by (simp add: index_ok_def)
  have ab: "all_bits buf = byte_bits (buf ! 0) @ all_bits (drop 1 buf)"
    using ne by (cases buf) simp_all
  have st: "stream_bits bs = drop s (byte_bits (buf ! 0)) @ all_bits (drop 1 buf)"
    using s(1) by (simp add: sb ab)
  have unfold: "ReadSmallUnary bs =
      (if buf ! 0 AND drop_bit s 0xff \<noteq> 0
       then Return (Some (LeadingZeros8 (push_bit s (buf ! 0 AND drop_bit s 0xff)),
         bs\<lparr>Offset := Offset bs + LeadingZeros8 (push_bit s (buf ! 0 AND drop_bit s 0xff)) + 1\<rparr>))
       else Return (ReadSmallUnary_loop bs buf (int s) 1))"
    using assms(2,3) ok ok0
    by (simp add: ReadSmallUnary_def Let_def s(2) flip: buf_def)
  show ?thesis
  proof (cases "push_bit s (buf ! 0) = 0")
    case True
    then have n: "True \<notin> set (drop s (byte_bits (buf ! 0)))"
      by (simp add: no_one_drop_byte_bits)
    have "unary_prefix (stream_bits bs) =
        map_option (\<lambda>z. (8 - s) + z) (unary_prefix (all_bits (drop 1 buf)))"
      unfolding st using unary_prefix_append_zeros [OF n] by simp
    moreover have "1 \<le> length buf"
      using ne by (cases buf) simp_all
    ultimately show ?thesis
      using True s(1) ReadSmallUnary_loop_spec [of 1 buf bs "int s"]
      by (simp add: unfold masked_zero_iff split: option.splits)
  next
    case False
    then have n: "True \<in> set (drop s (byte_bits (buf ! 0)))"
      by (simp add: no_one_drop_byte_bits [symmetric])
    have w: "word_bits 8 (push_bit s (buf ! 0)) = drop s (byte_bits (buf ! 0)) @ replicate s False"
      using s(1) word_bits_push_bit [of s "buf ! 0"] by (simp add: word_bits_8)
    have "unary_prefix (stream_bits bs) = unary_prefix (drop s (byte_bits (buf ! 0)))"
      unfolding st by (rule unary_prefix_append_one [OF n])
    also have "\<dots> = unary_prefix (drop s (byte_bits (buf ! 0)) @ replicate s False)"
      by (rule unary_prefix_append_one [OF n, symmetric])
    also have "\<dots> = unary_prefix (byte_bits (push_bit s (buf ! 0)))"
      using w by (simp add: word_bits_8)
    also have "\<dots> = Some (nat (LeadingZeros8 (push_bit s (buf ! 0))))"
      by (rule LeadingZeros8_unary [OF False])
    finally have "unary_prefix (stream_bits bs) = Some (nat (LeadingZeros8 (push_bit s (buf ! 0))))" .
    moreover have "0 \<le> LeadingZeros8 (push_bit s (buf ! 0))"
      by (simp add: LeadingZeros8_def)
    ultimately show ?thesis
      using False s(1) unfolding unfold push_bit_masked [OF s(1)]
      by (simp add: masked_zero_iff)
  qed
qed

lemma stream_bits_empty:
  assumes "int (length (Bytes bs)) \<le> Offset bs div 8"
  shows "stream_bits bs = []"
proof -
  have "8 * (Offset bs div 8) \<le> Offset bs"
    by (simp add: algebra_simps)
  with assms have "8 * int (length (Bytes bs)) \<le> Offset bs"
    by linarith
  then show ?thesis
    by (simp add: stream_bits_def)
qed

text \<open>
  Inside the buffer, with fewer than eight bytes left or with the next 1-bit in the
  64-bit window, \<open>ReadSmallUnary\<close> is the unary prefix of the remaining bits.
\<close>

lemma ReadSmallUnary_in_window:
  assumes "0 \<le> Offset bs" and "Offset bs div 8 \<le> int (length (Bytes bs))"
    and "int (length (Bytes bs)) - Offset bs div 8 < 8 \<or>
      (\<exists>z. unary_prefix (stream_bits bs) = Some z \<and> z + nat (Offset bs mod 8) < 64)"
  shows "ReadSmallUnary bs = Return
      (case unary_prefix (stream_bits bs) of
         None \<Rightarrow> None
       | Some z \<Rightarrow> Some (int z, bs\<lparr>Offset := Offset bs + int z + 1\<rparr>))"
proof -
  consider (empty) "int (length (Bytes bs)) - Offset bs div 8 = 0"
    | (tail) "0 < int (length (Bytes bs)) - Offset bs div 8"
        "int (length (Bytes bs)) - Offset bs div 8 < 8"
    | (window) "8 \<le> int (length (Bytes bs)) - Offset bs div 8"
    using assms(2) by linarith
  then show ?thesis
  proof cases
    case empty
    then have "stream_bits bs = []"
      by (intro stream_bits_empty) simp
    with empty show ?thesis
      by (simp add: ReadSmallUnary_def unary_prefix_def)
  next
    case tail
    then show ?thesis
      by (rule ReadSmallUnary_slow [OF assms(1)])
  next
    case window
    with assms(3) obtain z where z: "unary_prefix (stream_bits bs) = Some z"
      "z + nat (Offset bs mod 8) < 64"
      by auto
    from ReadSmallUnary_fast [OF assms(1) window z] z(1) show ?thesis
      by simp
  qed
qed

text \<open>
  The five calls of the fixture over the bytes \<open>00 08 80 00 00 00 00 01 01\<close> give 12, 3,
  46, 7 and failure.
\<close>

lemma ReadSmallUnary_fixture:
  "ReadSmallUnary \<lparr>Offset = 0, Bytes = [0x00, 0x08, 0x80, 0, 0, 0, 0, 1, 1]\<rparr>
        = Return (Some (12, \<lparr>Offset = 13, Bytes = [0x00, 0x08, 0x80, 0, 0, 0, 0, 1, 1]\<rparr>))
    \<and> ReadSmallUnary \<lparr>Offset = 13, Bytes = [0x00, 0x08, 0x80, 0, 0, 0, 0, 1, 1]\<rparr>
        = Return (Some (3, \<lparr>Offset = 17, Bytes = [0x00, 0x08, 0x80, 0, 0, 0, 0, 1, 1]\<rparr>))
    \<and> ReadSmallUnary \<lparr>Offset = 17, Bytes = [0x00, 0x08, 0x80, 0, 0, 0, 0, 1, 1]\<rparr>
        = Return (Some (46, \<lparr>Offset = 64, Bytes = [0x00, 0x08, 0x80, 0, 0, 0, 0, 1, 1]\<rparr>))
    \<and> ReadSmallUnary \<lparr>Offset = 64, Bytes = [0x00, 0x08, 0x80, 0, 0, 0, 0, 1, 1]\<rparr>
        = Return (Some (7, \<lparr>Offset = 72, Bytes = [0x00, 0x08, 0x80, 0, 0, 0, 0, 1, 1]\<rparr>))
    \<and> ReadSmallUnary \<lparr>Offset = 72, Bytes = [0x00, 0x08, 0x80, 0, 0, 0, 0, 1, 1]\<rparr>
        = Return None"
  by code_simp

text \<open>
  C3. The claim: the call fails exactly when no terminating 1-bit exists in the rest of
  the buffer. Over eight zero bytes no 1-bit exists, yet the call, which takes the
  64-bit path, returns \<open>true\<close> with the count 64 and moves the offset to 65, one bit
  beyond the 64 bits of the buffer. Over seven zero bytes, which take the byte-wise
  path, the call fails.
\<close>

theorem ReadSmallUnary_no_terminator:
  "unary_prefix (stream_bits \<lparr>Offset = 0, Bytes = [0, 0, 0, 0, 0, 0, 0, 0]\<rparr>) = None
   \<and> ReadSmallUnary \<lparr>Offset = 0, Bytes = [0, 0, 0, 0, 0, 0, 0, 0]\<rparr>
        = Return (Some (64, \<lparr>Offset = 65, Bytes = [0, 0, 0, 0, 0, 0, 0, 0]\<rparr>))
   \<and> RemainingBits \<lparr>Offset = 65, Bytes = [0, 0, 0, 0, 0, 0, 0, 0]\<rparr> = - 1
   \<and> ReadSmallUnary \<lparr>Offset = 0, Bytes = [0, 0, 0, 0, 0, 0, 0]\<rparr> = Return None"
  by code_simp

subsection \<open>\<open>ReadInt\<close>\<close>

lemma bits_value_snoc: "bits_value (xs @ [b]) = 2 * bits_value xs + of_bool b"
  by (simp add: bits_value_def)

lemma bits_value_Nil [simp]: "bits_value [] = 0"
  by (simp add: bits_value_def)

lemma bits_value_append:
  "bits_value (xs @ ys) = bits_value xs * 2 ^ length ys + bits_value ys"
proof (induction ys rule: rev_induct)
  case Nil
  show ?case by simp
next
  case (snoc y ys)
  have "bits_value (xs @ ys @ [y]) = 2 * bits_value (xs @ ys) + of_bool y"
    using bits_value_snoc [of "xs @ ys" y] by simp
  with snoc show ?case
    by (simp add: bits_value_snoc algebra_simps)
qed

lemma bits_value_bounds: "0 \<le> bits_value xs \<and> bits_value xs < 2 ^ length xs"
proof (induction xs rule: rev_induct)
  case Nil
  show ?case by simp
next
  case (snoc x xs)
  then show ?case
    by (cases x) (simp_all add: bits_value_snoc)
qed

lemma bits_value_take:
  "bits_value (take k xs) = drop_bit (length xs - k) (bits_value xs)"
proof -
  have "bits_value xs = bits_value (take k xs) * 2 ^ length (drop k xs) + bits_value (drop k xs)"
    using bits_value_append [of "take k xs" "drop k xs"] by simp
  moreover have "0 \<le> bits_value (drop k xs)" "bits_value (drop k xs) < 2 ^ length (drop k xs)"
    using bits_value_bounds [of "drop k xs"] by simp_all
  ultimately have "bits_value xs div 2 ^ length (drop k xs) = bits_value (take k xs)"
    by (simp add: div_pos_pos_trivial)
  then show ?thesis
    by (simp add: drop_bit_eq_div)
qed

lemma bits_value_append_or:
  "bits_value (xs @ ys) = push_bit (length ys) (bits_value xs) OR bits_value ys"
proof -
  have "take_bit (length ys) (bits_value ys) = bits_value ys"
    using bits_value_bounds [of ys] by (simp add: take_bit_int_eq_self)
  then have "push_bit (length ys) (bits_value xs) OR bits_value ys =
      concat_bit (length ys) (bits_value ys) (bits_value xs)"
    by (simp add: concat_bit_def or.commute)
  also have "\<dots> = bits_value ys + push_bit (length ys) (bits_value xs)"
    using bits_value_bounds [of ys] by (simp add: concat_bit_eq take_bit_int_eq_self)
  finally show ?thesis
    by (simp add: bits_value_append push_bit_eq_mult)
qed

lemma bits_value_rev: "bits_value (rev xs) = horner_sum of_bool 2 xs"
  by (induction xs) (simp_all add: bits_value_snoc)

lemma bits_value_word_bits: "bits_value (word_bits n w) = take_bit n (uint w)"
proof -
  have "map (bit w) [0..<n] = map (bit (uint w)) [0..<n]"
    by (auto simp add: bit_uint_iff dest: bit_imp_le_length)
  then have "bits_value (word_bits n w) = horner_sum of_bool 2 (map (bit (uint w)) [0..<n])"
    by (simp only: word_bits_def bits_value_rev)
  also have "\<dots> = take_bit n (uint w)"
    by (rule horner_sum_bit_eq_take_bit)
  finally show ?thesis .
qed

lemma bits_value_byte_bits: "bits_value (byte_bits b) = uint b"
  using bits_value_word_bits [of 8 b] uint_bounded [of b]
  by (simp add: word_bits_8 take_bit_int_eq_self)

lemma masked_eq_take_bit:
  assumes "s < 8"
  shows "(b :: 8 word) AND drop_bit s 0xff = take_bit (8 - s) b"
proof (rule bit_word_eqI)
  fix n assume "n < LENGTH(8)"
  then have n: "n < 8" by simp
  have m: "(0xff :: 8 word) = - 1"
    by simp
  show "bit (b AND drop_bit s 0xff) n = bit (take_bit (8 - s) b) n"
    unfolding m using n assms by (auto simp add: bit_simps)
qed

lemma bits_value_drop_byte_bits:
  assumes "s < 8"
  shows "bits_value (drop s (byte_bits b)) = uint (b AND drop_bit s 0xff)"
proof -
  have "bits_value (drop s (byte_bits b)) = bits_value (word_bits (8 - s) b)"
    by (simp add: drop_byte_bits word_bits_def)
  also have "\<dots> = take_bit (8 - s) (uint b)"
    by (rule bits_value_word_bits)
  also have "\<dots> = uint (take_bit (8 - s) b)"
    by (simp add: unsigned_take_bit_eq)
  finally show ?thesis
    by (simp add: masked_eq_take_bit [OF assms])
qed

lemma window_value_4:
  assumes "s < 8"
  shows "bits_value (drop s (byte_bits b0) @ byte_bits b1 @ byte_bits b2 @ byte_bits b3) =
    push_bit 24 (uint (b0 AND drop_bit s 0xff)) OR push_bit 16 (uint b1) OR
    push_bit 8 (uint b2) OR uint b3"
  by (simp add: bits_value_append_or bits_value_byte_bits bits_value_drop_byte_bits [OF assms]
      or.assoc)

lemma window_value_3:
  assumes "s < 8"
  shows "bits_value (drop s (byte_bits b0) @ byte_bits b1 @ byte_bits b2) =
    push_bit 16 (uint (b0 AND drop_bit s 0xff)) OR push_bit 8 (uint b1) OR uint b2"
  by (simp add: bits_value_append_or bits_value_byte_bits bits_value_drop_byte_bits [OF assms]
      or.assoc)

lemma window_value_2:
  assumes "s < 8"
  shows "bits_value (drop s (byte_bits b0) @ byte_bits b1) =
    push_bit 8 (uint (b0 AND drop_bit s 0xff)) OR uint b1"
  by (simp add: bits_value_append_or bits_value_byte_bits bits_value_drop_byte_bits [OF assms])

lemma stream_window_4:
  assumes "4 \<le> length buf" and "s < 8"
  shows "drop s (all_bits buf) =
    (drop s (byte_bits (buf ! 0)) @ byte_bits (buf ! 1) @ byte_bits (buf ! 2) @ byte_bits (buf ! 3))
      @ all_bits (drop 4 buf)"
proof -
  have "take 4 buf = [buf ! 0, buf ! 1, buf ! 2, buf ! 3]"
    using bits_list_4 [of "take 4 buf"] assms(1) by simp
  moreover have "all_bits buf = all_bits (take 4 buf) @ all_bits (drop 4 buf)"
    by (simp flip: all_bits_append)
  ultimately show ?thesis
    using assms(2) by simp
qed

lemma stream_window_3:
  assumes "3 \<le> length buf" and "s < 8"
  shows "drop s (all_bits buf) =
    (drop s (byte_bits (buf ! 0)) @ byte_bits (buf ! 1) @ byte_bits (buf ! 2))
      @ all_bits (drop 3 buf)"
proof -
  have "take 3 buf = [buf ! 0, buf ! 1, buf ! 2]"
    using bits_list_3 [of "take 3 buf"] assms(1) by simp
  moreover have "all_bits buf = all_bits (take 3 buf) @ all_bits (drop 3 buf)"
    by (simp flip: all_bits_append)
  ultimately show ?thesis
    using assms(2) by simp
qed

lemma stream_window_2:
  assumes "2 \<le> length buf" and "s < 8"
  shows "drop s (all_bits buf) =
    (drop s (byte_bits (buf ! 0)) @ byte_bits (buf ! 1)) @ all_bits (drop 2 buf)"
proof -
  have "take 2 buf = [buf ! 0, buf ! 1]"
    using bits_list_2 [of "take 2 buf"] assms(1) by simp
  moreover have "all_bits buf = all_bits (take 2 buf) @ all_bits (drop 2 buf)"
    by (simp flip: all_bits_append)
  ultimately show ?thesis
    using assms(2) by simp
qed

lemma stream_window_1:
  assumes "1 \<le> length buf" and "s < 8"
  shows "drop s (all_bits buf) = drop s (byte_bits (buf ! 0)) @ all_bits (drop 1 buf)"
proof -
  have "take 1 buf = [buf ! 0]"
    using bits_list_1 [of "take 1 buf"] assms(1) by simp
  moreover have "all_bits buf = all_bits (take 1 buf) @ all_bits (drop 1 buf)"
    by (simp flip: all_bits_append)
  ultimately show ?thesis
    using assms(2) by simp
qed

lemma take_window:
  assumes "N \<le> length L"
  shows "bits_value (take N (L @ rest)) = drop_bit (length L - N) (bits_value L)"
  using assms by (simp add: bits_value_take)

lemma shift_right_eq:
  fixes e c :: int
  assumes "8 * c - 8 < e" and "e \<le> 8 * c"
  shows "(8 - e mod 8) mod 8 = 8 * c - e"
proof -
  define r where "r = 8 * c - e"
  have r: "0 \<le> r" "r < 8"
    using assms by (simp_all add: r_def)
  have e: "e = (8 - r) + 8 * (c - 1)"
    by (simp add: r_def)
  have m: "e mod 8 = (8 - r) mod 8"
    by (subst e) (simp only: mod_mult_self2)
  show ?thesis
  proof (cases "r = 0")
    case True
    with m show ?thesis
      by (simp add: r_def)
  next
    case False
    have "(8 - r) mod 8 = 8 - r"
      by (rule mod_pos_pos_trivial) (use r False in simp_all)
    with m have "(8 - e mod 8) mod 8 = r mod 8"
      by simp
    also have "r mod 8 = r"
      by (rule mod_pos_pos_trivial) (use r in simp_all)
    finally show ?thesis
      by (simp add: r_def)
  qed
qed

lemma shift_right_nat:
  assumes "8 * c < s + N + 8" and "s + N \<le> 8 * c"
  shows "nat ((8 - (int s + int N) mod 8) mod 8) = 8 * c - s - N"
proof -
  have "(8 - (int s + int N) mod 8) mod 8 = 8 * int c - (int s + int N)"
    using assms by (intro shift_right_eq) simp_all
  also have "\<dots> = int (8 * c - s - N)"
    using assms(2) by simp
  finally show ?thesis
    by simp
qed

text \<open>
  \<open>ReadInt\<close> reads at most four bytes. When the requested bits end within 32 bits of
  the start of the current byte, it returns their value, most significant bit first, and
  advances by their number.
\<close>

lemma ReadInt_aligned_window:
  assumes "0 \<le> Offset bs" and "0 \<le> n" and "n \<le> RemainingBits bs"
    and "Offset bs mod 8 + n \<le> 32"
  shows "ReadInt bs n = Return (Some (bits_value (take (nat n) (stream_bits bs)),
    bs\<lparr>Offset := Offset bs + n\<rparr>))"
proof (cases "n = 0")
  case True
  with assms(3) show ?thesis
    by (simp add: ReadInt_def)
next
  case False
  define buf where "buf = drop (nat (Offset bs div 8)) (Bytes bs)"
  define s where "s = nat (Offset bs mod 8)"
  define N where "N = nat n"
  have s: "s < 8" "Offset bs mod 8 = int s"
    by (simp_all add: s_def nat_less_iff)
  have N: "0 < N" "n = int N" "s + N \<le> 32"
    using False assms(2,4) s(2) by (simp_all add: N_def)
  have sb: "stream_bits bs = drop s (all_bits buf)"
    using stream_bits_split [OF assms(1)] by (simp add: buf_def s_def)
  have p: "0 \<le> Offset bs div 8"
    using assms(1) by (simp add: pos_imp_zdiv_nonneg_iff)
  have d: "Offset bs div 8 < int (length (Bytes bs))"
    using assms(3) N by (simp add: RemainingBits_def)
  have ok: "slice_ok (Bytes bs) (Offset bs div 8)"
    using p d by (simp add: slice_ok_def)
  have lb: "int (length buf) = int (length (Bytes bs)) - Offset bs div 8"
    using d p by (simp add: buf_def)
  have rem: "RemainingBits bs = 8 * int (length buf) - int s"
    unfolding lb s(2) [symmetric] RemainingBits_def by (simp add: algebra_simps minus_mult_div_eq_mod)
  have room: "s + N \<le> 8 * length buf"
    using assms(3) rem N(2) by linarith
  have pre: "\<not> (RemainingBits bs < n \<or> 32 < n)" "n \<noteq> 0"
    using assms(3,4) s(2) False by simp_all
  consider (four) "24 < s + N" | (three) "16 < s + N" "s + N \<le> 24"
    | (two) "8 < s + N" "s + N \<le> 16" | (one) "s + N \<le> 8"
    by linarith
  then show ?thesis
  proof cases
    case four
    then have l: "4 \<le> length buf"
      using room by linarith
    have sh: "nat ((8 - (int s + int N) mod 8) mod 8) = 32 - s - N"
      using shift_right_nat [of 4 s N] four N by simp
    have "bits_value (take N (stream_bits bs)) =
        drop_bit (32 - s - N) (push_bit 24 (uint (buf ! 0 AND drop_bit s 0xff)) OR
          push_bit 16 (uint (buf ! 1)) OR push_bit 8 (uint (buf ! 2)) OR uint (buf ! 3))"
      unfolding sb stream_window_4 [OF l s(1)]
      using N(3) s(1) by (subst take_window) (simp_all add: window_value_4 [OF s(1)])
    then show ?thesis
      using pre ok l four sh
      by (simp add: ReadInt_def Let_def index_ok_def s(2) N(2) flip: buf_def)
  next
    case three
    then have l: "3 \<le> length buf"
      using room by linarith
    have sh: "nat ((8 - (int s + int N) mod 8) mod 8) = 24 - s - N"
      using shift_right_nat [of 3 s N] three N by simp
    have "bits_value (take N (stream_bits bs)) =
        drop_bit (24 - s - N) (push_bit 16 (uint (buf ! 0 AND drop_bit s 0xff)) OR
          push_bit 8 (uint (buf ! 1)) OR uint (buf ! 2))"
      unfolding sb stream_window_3 [OF l s(1)]
      using three s(1) by (subst take_window) (simp_all add: window_value_3 [OF s(1)])
    then show ?thesis
      using pre ok l three sh
      by (simp add: ReadInt_def Let_def index_ok_def s(2) N(2) flip: buf_def)
  next
    case two
    then have l: "2 \<le> length buf"
      using room by linarith
    have sh: "nat ((8 - (int s + int N) mod 8) mod 8) = 16 - s - N"
      using shift_right_nat [of 2 s N] two N by simp
    have "bits_value (take N (stream_bits bs)) =
        drop_bit (16 - s - N) (push_bit 8 (uint (buf ! 0 AND drop_bit s 0xff)) OR uint (buf ! 1))"
      unfolding sb stream_window_2 [OF l s(1)]
      using two s(1) by (subst take_window) (simp_all add: window_value_2 [OF s(1)])
    then show ?thesis
      using pre ok l two sh
      by (simp add: ReadInt_def Let_def index_ok_def s(2) N(2) flip: buf_def)
  next
    case one
    then have l: "1 \<le> length buf"
      using room N(1) by linarith
    have sh: "nat ((8 - (int s + int N) mod 8) mod 8) = 8 - s - N"
      using shift_right_nat [of 1 s N] one N by simp
    have "bits_value (take N (stream_bits bs)) =
        drop_bit (8 - s - N) (uint (buf ! 0 AND drop_bit s 0xff))"
      unfolding sb stream_window_1 [OF l s(1)]
      using one s(1) by (subst take_window) (simp_all add: bits_value_drop_byte_bits [OF s(1)])
    moreover have "buf \<noteq> []"
      using l by auto
    ultimately show ?thesis
      using pre ok l one sh
      by (simp add: ReadInt_def Let_def index_ok_def s(2) N(2) flip: buf_def)
  qed
qed

text \<open>
  C4. The fixture holds: over \<open>08 08\<close>, reading 8 bits gives 8 and then 6 bits give 2.
  The claim for every width up to 32 fails when the bits end in a fifth byte: at offset
  1 over \<open>00 00 00 00 80\<close>, 39 bits remain and the next 32 bits have the value 1, but
  \<open>ReadInt\<close> with 32 bits returns 0 (it shifts the first four bytes right by 7).
\<close>

theorem ReadInt_unaligned_32_bits:
  "ReadInt \<lparr>Offset = 0, Bytes = [0x08, 0x08]\<rparr> 8 = Return (Some (8, \<lparr>Offset = 8, Bytes = [0x08, 0x08]\<rparr>))
   \<and> ReadInt \<lparr>Offset = 8, Bytes = [0x08, 0x08]\<rparr> 6 = Return (Some (2, \<lparr>Offset = 14, Bytes = [0x08, 0x08]\<rparr>))
   \<and> RemainingBits \<lparr>Offset = 1, Bytes = [0, 0, 0, 0, 0x80]\<rparr> = 39
   \<and> bits_value (take 32 (stream_bits \<lparr>Offset = 1, Bytes = [0, 0, 0, 0, 0x80]\<rparr>)) = 1
   \<and> ReadInt \<lparr>Offset = 1, Bytes = [0, 0, 0, 0, 0x80]\<rparr> 32
        = Return (Some (0, \<lparr>Offset = 33, Bytes = [0, 0, 0, 0, 0x80]\<rparr>))"
  by code_simp

subsection \<open>\<open>Decode\<close>\<close>

lemma LastRiceQ_eq: "LastRiceQ p = int (rice_switch p)"
proof -
  have "p AND 3 = take_bit 2 p"
    by (simp add: take_bit_eq_mask mask_eq_exp_minus_1)
  then show ?thesis
    by (simp add: LastRiceQ_def rice_switch_def)
qed

lemma RiceOrder_eq: "RiceOrder p = int (rice_order p)"
proof -
  have "take_bit 3 (drop_bit 5 p) = drop_bit 5 p"
    by (rule bit_word_eqI) (auto simp add: bit_simps dest: bit_imp_le_length)
  then show ?thesis
    by (simp add: RiceOrder_def rice_order_def)
qed

lemma ExpOrder_eq: "ExpOrder p = int (exp_order p)"
proof -
  have "int (exp_order p) = uint (take_bit 3 (drop_bit 2 p))"
    by (simp add: exp_order_def)
  also have "\<dots> = take_bit 3 (uint (drop_bit 2 p))"
    by (rule unsigned_take_bit_eq)
  also have "\<dots> = uint (drop_bit 2 p) mod 8"
    by (simp add: take_bit_eq_mod)
  finally show ?thesis
    by (simp add: ExpOrder_def)
qed

lemma expGolombSubexprs_nth: "expGolombSubexprs ! unat p = offset p"
proof -
  have "unat p < 256"
    using unsigned_less [of p, where ?'a = nat] by simp
  then show ?thesis
    by (simp add: expGolombSubexprs_def offset_def Let_def LastRiceQ_eq RiceOrder_eq ExpOrder_eq
        push_bit_eq_mult del: upt_Suc)
qed

lemma length_stream_bits:
  "0 \<le> Offset bs \<Longrightarrow> int (length (stream_bits bs)) = max 0 (RemainingBits bs)"
  by (simp add: stream_bits_def RemainingBits_def)

lemma stream_bits_advance:
  assumes "0 \<le> Offset bs"
  shows "stream_bits (bs\<lparr>Offset := Offset bs + int m\<rparr>) = drop m (stream_bits bs)"
  using assms by (simp add: stream_bits_def nat_add_distrib add.commute)

lemma push_bit_plus_eq_or:
  fixes q r :: int
  assumes "0 \<le> r" and "r < 2 ^ k"
  shows "push_bit k q + r = push_bit k q OR r"
proof -
  have "take_bit k r = r"
    using assms by (simp add: take_bit_int_eq_self)
  then have "push_bit k q OR r = concat_bit k r q"
    by (simp add: concat_bit_def or.commute)
  also have "\<dots> = r + push_bit k q"
    using assms by (simp add: concat_bit_eq take_bit_int_eq_self)
  finally show ?thesis
    by simp
qed

text \<open>
  \<open>Decode\<close> against the reference: when the unary prefix lies in the 64-bit window and
  the tail ends within 32 bits of the start of its first byte, \<open>Decode\<close> returns the
  reference value and advances by the length of the codeword.
\<close>

lemma Decode_codeword:
  assumes "0 \<le> Offset bs"
    and "unary_prefix (stream_bits bs) = Some q"
    and "codeword_value p (stream_bits bs) = Some (v, m)"
    and "q + nat (Offset bs mod 8) < 64"
    and "(Offset bs + int q + 1) mod 8 + (int m - int q - 1) \<le> 32"
  shows "Decode p bs = Return (Some (v, bs\<lparr>Offset := Offset bs + int m\<rparr>))"
proof -
  define bs1 where "bs1 = bs\<lparr>Offset := Offset bs + int q + 1\<rparr>"
  define rest where "rest = drop (q + 1) (stream_bits bs)"
  have ne: "stream_bits bs \<noteq> []"
    using assms(2) by (auto simp add: unary_prefix_def split: if_splits)
  then have "0 < RemainingBits bs"
    using length_stream_bits [OF assms(1)] by (cases "0 < RemainingBits bs") simp_all
  then have inside: "Offset bs div 8 \<le> int (length (Bytes bs))"
    by (simp add: RemainingBits_def)
  have u: "ReadSmallUnary bs = Return (Some (int q, bs1))"
    using ReadSmallUnary_in_window [OF assms(1) inside] assms(2,4) by (simp add: bs1_def)
  have o1: "0 \<le> Offset bs1" "Offset bs1 = Offset bs + int q + 1"
    using assms(1) by (simp_all add: bs1_def)
  have r1: "stream_bits bs1 = rest"
    using stream_bits_advance [OF assms(1), of "q + 1"] by (simp add: bs1_def rest_def ac_simps)
  have "q + 1 \<le> length (stream_bits bs)"
    by (subst unary_prefix_SomeD [OF assms(2)]) simp
  then have "int q + 1 \<le> RemainingBits bs"
    using length_stream_bits [OF assms(1)] by linarith
  then have rem1: "0 \<le> RemainingBits bs1"
    by (simp add: RemainingBits_def bs1_def)
  have tail: "int t \<le> int (length rest) \<Longrightarrow> int t = int m - int q - 1 \<Longrightarrow>
      ReadInt bs1 (int t) = Return (Some (bits_value (take t rest), bs\<lparr>Offset := Offset bs + int m\<rparr>))" for t
  proof -
    assume t: "int t \<le> int (length rest)" "int t = int m - int q - 1"
    have "int t \<le> RemainingBits bs1"
      using t(1) length_stream_bits [OF o1(1)] rem1 by (simp add: r1)
    moreover have "Offset bs1 mod 8 + int t \<le> 32"
      using assms(5) t(2) by (simp add: o1(2))
    ultimately have "ReadInt bs1 (int t) = Return (Some (bits_value (take (nat (int t)) (stream_bits bs1)),
        bs1\<lparr>Offset := Offset bs1 + int t\<rparr>))"
      by (intro ReadInt_aligned_window o1(1)) simp_all
    moreover have "bs1\<lparr>Offset := Offset bs1 + int t\<rparr> = bs\<lparr>Offset := Offset bs + int m\<rparr>"
      using t(2) by (simp add: bs1_def)
    ultimately show ?thesis
      by (simp add: r1)
  qed
  show ?thesis
  proof (cases "q \<le> rice_switch p")
    case True
    show ?thesis
    proof (cases "rice_order p = 0")
      case z: True
      with True assms(2,3) have "v = int q" "m = q + 1"
        by (simp_all add: codeword_value_def Let_def)
      with True z u show ?thesis
        by (simp add: Decode_def Let_def LastRiceQ_eq RiceOrder_eq bs1_def add.assoc)
    next
      case nz: False
      with True assms(2,3) have l: "rice_order p \<le> length rest"
        and v: "v = push_bit (rice_order p) (int q) OR bits_value (take (rice_order p) rest)"
        and m: "m = q + 1 + rice_order p"
        by (simp_all add: codeword_value_def Let_def rest_def split: if_splits)
      have "ReadInt bs1 (int (rice_order p)) = Return (Some (bits_value (take (rice_order p) rest),
          bs\<lparr>Offset := Offset bs + int m\<rparr>))"
        using l m by (intro tail) simp_all
      moreover have "length (take (rice_order p) rest) = rice_order p"
        using l by simp
      then have "0 \<le> bits_value (take (rice_order p) rest)"
        "bits_value (take (rice_order p) rest) < 2 ^ rice_order p"
        using bits_value_bounds [of "take (rice_order p) rest"] by simp_all
      then have "push_bit (rice_order p) (int q) + bits_value (take (rice_order p) rest) = v"
        unfolding v by (rule push_bit_plus_eq_or)
      ultimately show ?thesis
        using True nz u by (simp add: Decode_def Let_def LastRiceQ_eq RiceOrder_eq)
    qed
  next
    case False
    define w where "w = nat (int (exp_order p) - int (rice_switch p) + int q - 1)"
    have w: "int w = int (exp_order p) - int (rice_switch p) + int q - 1"
      using False by (simp add: w_def)
    from False assms(2,3) have l: "w \<le> length rest"
      and v: "v = (push_bit w 1 OR bits_value (take w rest)) + offset p"
      and m: "m = q + 1 + w"
      by (simp_all add: codeword_value_def Let_def rest_def w_def split: if_splits)
    have b: "ExpOrder p - LastRiceQ p + push_bit 1 (int q) - int q - 1 = int w"
      by (simp add: w LastRiceQ_eq ExpOrder_eq push_bit_eq_mult)
    have "ReadInt bs1 (int w) = Return (Some (bits_value (take w rest),
        bs\<lparr>Offset := Offset bs + int m\<rparr>))"
      using l m by (intro tail) simp_all
    then show ?thesis
      using False u b v by (simp add: Decode_def Let_def LastRiceQ_eq expGolombSubexprs_nth)
  qed
qed

text \<open>
  C2. The dispatch, the widths and the offset table are as the claim says
  (\<open>expGolombSubexprs_nth\<close>, \<open>Decode_codeword\<close>), but the tail is read by \<open>ReadInt\<close>,
  which is wrong when the tail ends in a fifth byte. Under descriptor \<open>04\<close> over
  \<open>00 00 00 03 FF FF FF F8\<close> the prefix is 30, the tail has 30 bits, all 1, and the
  value should be \<open>(2 ^ 30 OR (2 ^ 30 - 1)) - 1 = 2147483646\<close>; \<open>Decode\<close> returns
  1077936126.
\<close>

theorem Decode_long_tail_unaligned:
  "codeword_value 0x04 (stream_bits \<lparr>Offset = 0, Bytes = [0, 0, 0, 0x03, 0xff, 0xff, 0xff, 0xf8]\<rparr>)
     = Some (2147483646, 61)
   \<and> Decode 0x04 \<lparr>Offset = 0, Bytes = [0, 0, 0, 0x03, 0xff, 0xff, 0xff, 0xf8]\<rparr>
     = Return (Some (1077936126, \<lparr>Offset = 61, Bytes = [0, 0, 0, 0x03, 0xff, 0xff, 0xff, 0xf8]\<rparr>))"
  by code_simp

subsection \<open>AC decoding and the DC entries\<close>

lemma ReadInt_nonneg:
  assumes "ReadInt bs n = Return (Some (v, bs'))"
  shows "0 \<le> v"
proof -
  define e where "e = Offset bs mod 8 + n"
  show ?thesis
    using assms unfolding ReadInt_def Let_def e_def [symmetric]
    by (cases "n = 0"; cases "e > 24"; cases "e > 16"; cases "e > 8") (auto split: if_splits)
qed

lemma offset_lower: "- (2 ^ exp_order p) < offset p"
proof -
  have "(0 :: int) < (int (rice_switch p) + 1) * 2 ^ rice_order p"
    by (intro mult_pos_pos) simp_all
  then show ?thesis
    by (simp add: offset_def)
qed

lemma Decode_nonneg:
  assumes "Decode p bs = Return (Some (v, bs'))"
  shows "0 \<le> v"
proof -
  from assms obtain q bs1 where u: "ReadSmallUnary bs = Return (Some (q, bs1))"
    by (auto simp add: Decode_def split: go.splits option.splits)
  have q: "0 \<le> q"
    using ReadSmallUnary_Some [OF u] by simp
  show ?thesis
  proof (cases "q > LastRiceQ p")
    case True
    define bits where "bits = ExpOrder p - LastRiceQ p + push_bit 1 q - q - 1"
    from True assms u obtain n where
      r: "ReadInt bs1 bits = Return (Some (n, bs'))"
      and v: "v = (push_bit (nat bits) 1 OR n) + expGolombSubexprs ! unat p"
      by (auto simp add: Decode_def Let_def bits_def split: go.splits option.splits)
    have n: "0 \<le> n"
      by (rule ReadInt_nonneg [OF r])
    have b: "int (exp_order p) \<le> bits"
      using True by (simp add: bits_def ExpOrder_eq push_bit_eq_mult)
    then have "exp_order p \<le> nat bits"
      by simp
    then have "(2 :: int) ^ exp_order p \<le> 2 ^ nat bits"
      by (intro power_increasing) simp_all
    also have "\<dots> \<le> push_bit (nat bits) 1 OR n"
      using n or_greater_eq [of n "push_bit (nat bits) 1"] by (simp add: push_bit_eq_mult)
    finally show ?thesis
      using offset_lower [of p] by (simp add: v expGolombSubexprs_nth)
  next
    case False
    show ?thesis
    proof (cases "RiceOrder p = 0")
      case True
      with False assms u q show ?thesis
        by (auto simp add: Decode_def Let_def)
    next
      case nz: False
      with False assms u obtain r where
        r: "ReadInt bs1 (RiceOrder p) = Return (Some (r, bs'))"
        and v: "v = push_bit (nat (RiceOrder p)) q + r"
        by (auto simp add: Decode_def Let_def split: go.splits option.splits)
      from ReadInt_nonneg [OF r] q show ?thesis
        by (simp add: v push_bit_eq_mult)
    qed
  qed
qed

lemma leading_zeros_pow2:
  fixes k :: nat
  assumes "k < n" and "n \<le> LENGTH('a::len)"
  shows "leading_zeros n (2 ^ k :: 'a word) = n - 1 - k"
  using assms
proof (induction n)
  case 0
  then show ?case by simp
next
  case (Suc n)
  show ?case
  proof (cases "k = n")
    case True
    with Suc.prems show ?thesis
      by (simp add: bit_exp_iff)
  next
    case False
    with Suc.prems have "k < n" "n \<le> LENGTH('a)"
      by simp_all
    with Suc.IH False Suc.prems show ?thesis
      by (simp add: bit_exp_iff)
  qed
qed

lemma log2BlockCount_pow2:
  assumes "k \<le> 31"
  shows "log2BlockCount (2 ^ k) = k"
proof -
  have "LeadingZeros32 (word_of_int (2 ^ k)) = int (31 - k)"
    using assms leading_zeros_pow2 [of k 32, where ?'a = 32]
    by (simp add: LeadingZeros32_def)
  moreover have "(31 :: 64 word) - word_of_int (int (31 - k)) = word_of_nat k"
    using assms by (simp add: of_nat_diff)
  moreover have "take_bit 64 k = k"
    using assms by (intro take_bit_nat_eq_self) simp
  then have "unat (word_of_nat k :: 64 word) = k"
    by (simp add: unsigned_of_nat)
  ultimately show ?thesis
    by (simp add: log2BlockCount_def)
qed

lemma decodeAC_loop_ReturnE:
  assumes "decodeAC_loop bs dest B scan k bmask run level pos = Return (err, dest')"
  obtains (finished) "dest' = dest"
  | (step) params run' bs1 params' level0 bs2 sign bs3 dest1 where
      "EndOfData bs = Return False"
      "next_params acRunCodeParams run = Return params"
      "Decode params bs = Return (Some (run', bs1))"
      "next_params acLevelCodeParams level = Return params'"
      "Decode params' bs1 = Return (Some (level0, bs2))"
      "(pos + (run' + 1)) AND bmask < B"
      "index_ok scan (drop_bit k (pos + (run' + 1)))"
      "ReadBit bs2 = Return (Some (sign, bs3))"
      "store dest ((pos + (run' + 1)) AND bmask) (scan ! nat (drop_bit k (pos + (run' + 1))))
         (word_of_int (if sign then - (level0 + 1) else level0 + 1)) = Return dest1"
      "decodeAC_loop bs3 dest1 B scan k bmask run' (level0 + 1) (pos + (run' + 1))
         = Return (err, dest')"
  using assms
  by (subst (asm) decodeAC_loop.simps)
    (auto simp add: Let_def split: go.splits bool.splits option.splits if_splits)

lemma store_keeps_DC:
  assumes "store dest block i v = Return dest'" and "i \<noteq> 0"
  shows "dest' ! b ! 0 = dest ! b ! 0"
proof -
  from assms have d: "dest' = dest[nat block := (dest ! nat block)[nat i := v]]" and i: "nat i \<noteq> 0"
    by (auto simp add: store_def split: if_splits)
  show ?thesis
  proof (cases "b = nat block \<and> b < length dest")
    case True
    with i show ?thesis
      by (simp add: d)
  next
    case False
    then show ?thesis
      by (cases "b = nat block") (simp_all add: d list_update_beyond)
  qed
qed

text \<open>
  The invariant of the loop: \<open>pos\<close> never falls below \<open>2 ^ k - 1\<close>, so every position
  written is at least \<open>2 ^ k\<close>.
\<close>

lemma decodeAC_loop_keeps_DC:
  assumes "decodeAC_loop bs dest B scan k bmask run level pos = Return (err, dest')"
    and "2 ^ k - 1 \<le> pos"
    and "\<forall>j. 1 \<le> j \<and> j < length scan \<longrightarrow> scan ! j \<noteq> 0"
  shows "dest' ! b ! 0 = dest ! b ! 0"
  using assms(1,2)
proof (induction "nat (RemainingBits bs)" arbitrary: bs dest run level pos rule: less_induct)
  case less
  from less.prems(1) show ?case
  proof (cases rule: decodeAC_loop_ReturnE)
    case finished
    then show ?thesis by simp
  next
    case (step params run' bs1 params' level0 bs2 sign bs3 dest1)
    let ?pos = "pos + (run' + 1)"
    have r: "0 \<le> run'"
      by (rule Decode_nonneg [OF step(3)])
    with less.prems(2) have p: "2 ^ k \<le> ?pos"
      by simp
    have "(2 :: int) ^ k div 2 ^ k \<le> ?pos div 2 ^ k"
      using p by (intro zdiv_mono1) simp_all
    then have "1 \<le> drop_bit k ?pos"
      by (simp add: drop_bit_eq_div)
    with step(7) have "1 \<le> nat (drop_bit k ?pos) \<and> nat (drop_bit k ?pos) < length scan"
      by (simp add: index_ok_def nat_less_iff)
    with assms(3) have "scan ! nat (drop_bit k ?pos) \<noteq> 0"
      by blast
    from store_keeps_DC [OF step(9) this] have s: "dest1 ! b ! 0 = dest ! b ! 0" .
    have "Offset bs < Offset bs3 \<and> Bytes bs3 = Bytes bs"
      using Decode_Some [OF step(3)] Decode_Some [OF step(5)] ReadBit_Some [OF step(8)] by simp
    moreover have "0 < RemainingBits bs"
      by (rule EndOfData_False [OF step(1)])
    ultimately have "nat (RemainingBits bs3) < nat (RemainingBits bs)"
      by (simp add: RemainingBits_def)
    from less.hyps [OF this step(10)] p have "dest' ! b ! 0 = dest1 ! b ! 0"
      by simp
    with s show ?thesis
      by simp
  qed
qed

lemma scan_orders_nonzero:
  assumes "scanOrder = ProgressiveScanOrder \<or> scanOrder = InterlacedScanOrder"
  shows "\<forall>j. 1 \<le> j \<and> j < length scanOrder \<longrightarrow> scanOrder ! j \<noteq> 0"
proof (intro allI impI)
  fix j assume j: "1 \<le> j \<and> j < length scanOrder"
  have "list_all (\<lambda>v. v \<noteq> 0) (tl scanOrder)"
    using assms by (auto simp add: ProgressiveScanOrder_def InterlacedScanOrder_def)
  moreover obtain i where i: "j = Suc i"
    using j by (cases j) simp_all
  then have "scanOrder ! j = tl scanOrder ! (j - 1)" "j - 1 < length (tl scanOrder)"
    using j by (simp_all add: nth_tl)
  ultimately show "scanOrder ! j \<noteq> 0"
    by (simp add: list_all_length)
qed

text \<open>
  C10. For a block count \<open>B = 2 ^ k\<close> with \<open>k \<le> 31\<close> and either scan table, AC
  decoding that returns, with or without an error, leaves entry 0 of every block as it
  found it: every position it writes is at least \<open>B\<close>, its scan index is at least 1, and
  the scan tables are nonzero there (\<open>decodeAC_loop_keeps_DC\<close>, \<open>scan_orders_nonzero\<close>).
  The bound on \<open>k\<close> is the range of \<open>uint32(numberOfBlocks)\<close> in \<open>log2BlockCount\<close>.
\<close>

theorem decodeACCoefficients_keeps_DC:
  assumes "k \<le> 31"
    and "scanOrder = ProgressiveScanOrder \<or> scanOrder = InterlacedScanOrder"
    and "decodeACCoefficients bs dest (2 ^ k) scanOrder = Return (err, dest')"
  shows "dest' ! b ! 0 = dest ! b ! 0"
proof -
  have "decodeAC_loop bs dest (2 ^ k) scanOrder k (2 ^ k - 1) 4 2 (2 ^ k - 1) = Return (err, dest')"
    using assms(3) by (simp add: decodeACCoefficients_def log2BlockCount_pow2 [OF assms(1)])
  then show ?thesis
    by (rule decodeAC_loop_keeps_DC) (simp_all add: scan_orders_nonzero [OF assms(2)])
qed

theorem decodeACCoefficients_keeps_DC_witness:
  "decodeACCoefficients \<lparr>Offset = 0, Bytes = [0xC0]\<rparr> (replicate 32 (7 # replicate 63 0)) (2 ^ 2)
      ProgressiveScanOrder
     = Return (None, (replicate 32 (7 # replicate 63 0))[0 := 7 # 1 # replicate 62 0])
   \<and> (replicate 32 (7 # replicate 63 0))[0 := 7 # 1 # replicate 62 0] ! 0 ! 0
     = replicate 32 (7 # replicate 63 (0 :: 16 word)) ! 0 ! 0"
proof -
  have d: "decodeACCoefficients \<lparr>Offset = 0, Bytes = [0xC0]\<rparr> (replicate 32 (7 # replicate 63 0)) (2 ^ 2)
      ProgressiveScanOrder
     = Return (None, (replicate 32 (7 # replicate 63 0))[0 := 7 # 1 # replicate 62 0])"
    by code_simp
  have k: "(2 :: nat) \<le> 31"
    by simp
  have s: "ProgressiveScanOrder = ProgressiveScanOrder \<or> ProgressiveScanOrder = InterlacedScanOrder"
    by simp
  from decodeACCoefficients_keeps_DC [OF k s d, of 0] d show ?thesis
    by simp
qed

text \<open>
  Beyond that range the property fails. For \<open>B = 2 ^ 32\<close> the conversion
  \<open>uint32(numberOfBlocks)\<close> gives 0, \<open>LeadingZeros32\<close> gives 32 and \<open>31 - 32\<close> wraps to
  \<open>2 ^ 64 - 1\<close>, so \<open>pos >> log2BlockCount\<close> is 0: over the byte \<open>C0\<close> the first
  coefficient (run 0, level 1, positive) is written to entry 0 of block 0, over the
  DC value 7.
\<close>

lemma LeadingZeros32_zero: "LeadingZeros32 4294967296 = 32"
proof -
  have "(4294967296 :: 32 word) = 0"
    by simp
  then show ?thesis
    by (simp add: LeadingZeros32_def eval_nat_numeral)
qed

lemma log2BlockCount_wraps: "log2BlockCount 4294967296 = 18446744073709551615"
  by (simp add: log2BlockCount_def LeadingZeros32_zero unsigned_minus_1_eq_mask
      mask_eq_exp_minus_1)

lemma drop_bit_beyond:
  assumes "32 < n"
  shows "drop_bit n (4294967296 :: int) = 0"
proof -
  have "(2 :: int) ^ 32 < 2 ^ n"
    using assms by (intro power_strict_increasing) simp_all
  then show ?thesis
    by (simp add: drop_bit_eq_div)
qed

theorem decodeACCoefficients_uint32_counterexample:
  "decodeACCoefficients \<lparr>Offset = 0, Bytes = [0xC0]\<rparr> (replicate 32 (7 # replicate 63 0))
      (2 ^ 32) ProgressiveScanOrder
     = Return (None, (replicate 32 (7 # replicate 63 0))[0 := 1 # replicate 63 0])
   \<and> (replicate 32 (7 # replicate 63 0))[0 := 1 # replicate 63 0] ! 0 ! 0
     \<noteq> replicate 32 (7 # replicate 63 (0 :: 16 word)) ! 0 ! 0"
proof -
  have e1: "EndOfData \<lparr>Offset = 0, Bytes = [0xC0]\<rparr> = Return False"
    by code_simp
  have p1: "next_params acRunCodeParams 4 = Return 0x04"
    by code_simp
  have d1: "Decode 0x04 \<lparr>Offset = 0, Bytes = [0xC0]\<rparr>
      = Return (Some (0, \<lparr>Offset = 1, Bytes = [0xC0]\<rparr>))"
    by code_simp
  have p2: "next_params acLevelCodeParams 2 = Return 0x05"
    by code_simp
  have d2: "Decode 0x05 \<lparr>Offset = 1, Bytes = [0xC0]\<rparr>
      = Return (Some (0, \<lparr>Offset = 2, Bytes = [0xC0]\<rparr>))"
    by code_simp
  have b1: "ReadBit \<lparr>Offset = 2, Bytes = [0xC0]\<rparr>
      = Return (Some (False, \<lparr>Offset = 3, Bytes = [0xC0]\<rparr>))"
    by code_simp
  have e2: "EndOfData \<lparr>Offset = 3, Bytes = [0xC0]\<rparr> = Return True"
    by code_simp
  have s1: "store (replicate 32 (7 # replicate 63 0)) 0 0 1
      = Return ((replicate 32 (7 # replicate 63 0))[0 := 1 # replicate 63 0])"
    by code_simp
  have a1: "(4294967296 :: int) AND 4294967295 = 0"
    by simp
  have i0: "index_ok ProgressiveScanOrder 0"
    by code_simp
  have n0: "ProgressiveScanOrder ! 0 = 0"
    by code_simp
  have last: "decodeAC_loop \<lparr>Offset = 3, Bytes = [0xC0]\<rparr>
      ((replicate 32 (7 # replicate 63 0))[0 := 1 # replicate 63 0]) 4294967296
      ProgressiveScanOrder 18446744073709551615 4294967295 0 1 4294967296
     = Return (None, (replicate 32 (7 # replicate 63 0))[0 := 1 # replicate 63 0])"
    by (subst decodeAC_loop.simps) (simp add: e2)
  have "decodeAC_loop \<lparr>Offset = 0, Bytes = [0xC0]\<rparr> (replicate 32 (7 # replicate 63 0))
      4294967296 ProgressiveScanOrder 18446744073709551615 4294967295 4 2 4294967295
     = Return (None, (replicate 32 (7 # replicate 63 0))[0 := 1 # replicate 63 0])"
    by (subst decodeAC_loop.simps)
      (simp add: e1 p1 d1 p2 d2 b1 s1 a1 i0 n0 drop_bit_beyond last)
  then have "decodeACCoefficients \<lparr>Offset = 0, Bytes = [0xC0]\<rparr>
      (replicate 32 (7 # replicate 63 0)) (2 ^ 32) ProgressiveScanOrder
     = Return (None, (replicate 32 (7 # replicate 63 0))[0 := 1 # replicate 63 0])"
    by (simp add: decodeACCoefficients_def log2BlockCount_wraps)
  moreover have "(replicate 32 (7 # replicate 63 0))[0 := 1 # replicate 63 0] ! 0 ! 0
     \<noteq> replicate 32 (7 # replicate 63 (0 :: 16 word)) ! 0 ! 0"
    by simp
  ultimately show ?thesis
    by (intro conjI)
qed

subsection \<open>DC decoding\<close>

lemma next_params_dc:
  assumes "0 \<le> code"
  shows "next_params dcCodeParams code = Return (dcCodeParams ! nat (min code 6))"
proof (cases "code < 7")
  case True
  then have "min code 6 = code"
    by simp
  with True assms show ?thesis
    by (simp add: next_params_def index_ok_def dcCodeParams_def)
next
  case False
  then have "min code 6 = 6"
    by simp
  with False show ?thesis
    by (simp add: next_params_def dcCodeParams_def)
qed

lemma store_dc_block:
  assumes "0 \<le> i" and "i < 32"
  shows "store dest i 0 v = Return (dest[nat i := (dest ! nat i)[0 := v]])"
  using assms by (simp add: store_def MaxBlocksPerSlice_def)

lemma decodeDC_loop_reference:
  assumes "0 \<le> code" and "0 \<le> i" and "i \<le> B" and "B \<le> 32" and "n = nat (B - i)"
  shows "decodeDC_loop bs dest B i code sign prev =
    (case dc_codes n code bs of
       Panic \<Rightarrow> Panic
     | Return None \<Rightarrow> Return (Inl ''unable to decode codeword'')
     | Return (Some (codes, bs')) \<Rightarrow>
         Return (Inr (store_dcs dest (nat i) (running_sums prev (dc_differences sign codes)), bs')))"
  using assms
proof (induction n arbitrary: bs dest i code sign prev)
  case 0
  then have "\<not> i < B"
    by simp
  then show ?case
    by (simp add: decodeDC_loop.simps [of bs dest B i])
next
  case (Suc n)
  then have lt: "i < B"
    by simp
  note unfold = decodeDC_loop.simps [of bs dest B i code sign prev]
  note params = next_params_dc [OF Suc.prems(1)]
  show ?case
  proof (cases "Decode (dcCodeParams ! nat (min code 6)) bs")
    case Panic
    with lt params show ?thesis
      by (simp add: unfold)
  next
    case (Return r)
    show ?thesis
    proof (cases r)
      case None
      with Return lt params show ?thesis
        by (simp add: unfold)
    next
      case (Some a)
      obtain code' bs1 where a: "a = (code', bs1)"
        by (cases a)
      have d: "Decode (dcCodeParams ! nat (min code 6)) bs = Return (Some (code', bs1))"
        using Return Some a by simp
      define sign' where "sign' = (if code' \<noteq> 0 then sign XOR - (code' AND 1) else 0)"
      define prev' where "prev' = prev + ((drop_bit 1 (code' + 1) XOR sign') - sign')"
      define dest1 where "dest1 = dest[nat i := (dest ! nat i)[0 := word_of_int prev']]"
      have st: "store dest i 0 (word_of_int prev') = Return dest1"
        using Suc.prems(2,4) lt by (simp add: store_dc_block dest1_def)
      have step: "decodeDC_loop bs dest B i code sign prev =
          decodeDC_loop bs1 dest1 B (i + 1) code' sign' prev'"
        using lt params d st by (simp add: unfold Let_def sign'_def prev'_def)
      have "decodeDC_loop bs1 dest1 B (i + 1) code' sign' prev' =
        (case dc_codes n code' bs1 of
           Panic \<Rightarrow> Panic
         | Return None \<Rightarrow> Return (Inl ''unable to decode codeword'')
         | Return (Some (codes, bs')) \<Rightarrow>
             Return (Inr (store_dcs dest1 (nat (i + 1))
               (running_sums prev' (dc_differences sign' codes)), bs')))"
        using Suc.prems lt Decode_nonneg [OF d] by (intro Suc.IH) simp_all
      moreover have "nat (i + 1) = Suc (nat i)"
        using Suc.prems(2) by simp
      ultimately show ?thesis
        unfolding step using d Suc.prems(2)
        by (simp add: Let_def sign'_def prev'_def dest1_def split: go.splits option.splits)
    qed
  qed
qed

lemma store_dcs_below:
  "b < i \<Longrightarrow> store_dcs dest i vs ! b = dest ! b"
  by (induction vs arbitrary: dest i) simp_all

lemma length_store_dcs [simp]: "length (store_dcs dest i vs) = length dest"
  by (induction vs arbitrary: dest i) simp_all

lemma store_dcs_nth:
  assumes "i + length vs \<le> length dest" and "\<forall>b < length dest. dest ! b \<noteq> []"
    and "j < length vs"
  shows "store_dcs dest i vs ! (i + j) ! 0 = word_of_int (vs ! j)"
  using assms
proof (induction vs arbitrary: dest i j)
  case Nil
  then show ?case by simp
next
  case (Cons v vs)
  define dest1 where "dest1 = dest[i := (dest ! i)[0 := word_of_int v]]"
  have wf: "\<forall>b < length dest1. dest1 ! b \<noteq> []"
  proof (intro allI impI)
    fix b assume "b < length dest1"
    then have b: "b < length dest"
      by (simp add: dest1_def)
    with Cons.prems(2) have "dest ! b \<noteq> []"
      by blast
    with b show "dest1 ! b \<noteq> []"
      by (cases "b = i") (simp_all add: dest1_def)
  qed
  show ?case
  proof (cases j)
    case 0
    have "store_dcs dest1 (Suc i) vs ! i = dest1 ! i"
      by (rule store_dcs_below) simp
    with 0 Cons.prems(1,2) show ?thesis
      by (simp add: dest1_def)
  next
    case (Suc j')
    have "store_dcs dest1 (Suc i) vs ! (Suc i + j') ! 0 = word_of_int (vs ! j')"
      using Cons.prems Suc wf by (intro Cons.IH) (simp_all add: dest1_def)
    with Suc show ?thesis
      by (simp add: dest1_def)
  qed
qed

lemma length_dc_codes:
  "dc_codes n key bs = Return (Some (codes, bs')) \<Longrightarrow> length codes = n"
  by (induction n arbitrary: key bs codes) (auto split: go.splits option.splits)

lemma length_dc_values: "length (dc_values code0 codes) = Suc (length codes)"
proof -
  have "length (dc_differences sign codes) = length codes" for sign
    by (induction codes arbitrary: sign) (simp_all add: Let_def)
  moreover have "length (running_sums prev ds) = length ds" for prev ds
    by (induction ds arbitrary: prev) simp_all
  ultimately show ?thesis
    by (simp add: dc_values_def)
qed

text \<open>
  C6, as the code has it. For \<open>1 \<le> B \<le> 32\<close> blocks, \<open>decodeDCCoefficients\<close> decodes the
  first codeword under \<open>B8\<close>, then \<open>B - 1\<close> codewords under the 7-entry table, the first
  of them keyed by the constant 5 and every later one by the code read before it
  (\<open>dc_codes\<close>); the values follow the recurrences of the claim (\<open>dc_values\<close>); and entry
  0 of block \<open>j\<close> receives value \<open>j\<close> converted to \<open>int16\<close>. It fails exactly when one of
  the codewords cannot be read.
\<close>

theorem decodeDCCoefficients_reference:
  assumes "1 \<le> B" and "B \<le> 32" and "length dest = 32" and "\<forall>b<32. length (dest ! b) = 64"
  shows "decodeDCCoefficients bs dest B =
      (case Decode 0xb8 bs of
         Panic \<Rightarrow> Panic
       | Return None \<Rightarrow> Return (Inl ''unable to decode initial codeword'')
       | Return (Some (code0, bs1)) \<Rightarrow>
           (case dc_codes (nat B - 1) 5 bs1 of
              Panic \<Rightarrow> Panic
            | Return None \<Rightarrow> Return (Inl ''unable to decode codeword'')
            | Return (Some (codes, bs2)) \<Rightarrow>
                Return (Inr (store_dcs dest 0 (dc_values code0 codes), bs2))))
    \<and> (\<forall>code0 codes j. length codes = nat B - 1 \<and> j < nat B \<longrightarrow>
          store_dcs dest 0 (dc_values code0 codes) ! j ! 0 = word_of_int (dc_values code0 codes ! j))"
proof
  have loop: "decodeDC_loop bs1 dest1 B 1 5 0 prev =
      (case dc_codes (nat B - 1) 5 bs1 of
         Panic \<Rightarrow> Panic
       | Return None \<Rightarrow> Return (Inl ''unable to decode codeword'')
       | Return (Some (codes, bs')) \<Rightarrow>
           Return (Inr (store_dcs dest1 (Suc 0) (running_sums prev (dc_differences 0 codes)), bs')))"
    for bs1 dest1 prev
    using decodeDC_loop_reference [of 5 1 B "nat B - 1" bs1 dest1 0 prev, unfolded nat_1] assms(1,2)
    by (simp add: nat_diff_distrib)
  show "decodeDCCoefficients bs dest B =
      (case Decode 0xb8 bs of
         Panic \<Rightarrow> Panic
       | Return None \<Rightarrow> Return (Inl ''unable to decode initial codeword'')
       | Return (Some (code0, bs1)) \<Rightarrow>
           (case dc_codes (nat B - 1) 5 bs1 of
              Panic \<Rightarrow> Panic
            | Return None \<Rightarrow> Return (Inl ''unable to decode codeword'')
            | Return (Some (codes, bs2)) \<Rightarrow>
                Return (Inr (store_dcs dest 0 (dc_values code0 codes), bs2))))"
    by (simp add: decodeDCCoefficients_def store_dc_block loop dc_values_def first_dc_def Let_def
        split: go.splits option.splits)
next
  show "\<forall>code0 codes j. length codes = nat B - 1 \<and> j < nat B \<longrightarrow>
      store_dcs dest 0 (dc_values code0 codes) ! j ! 0 = word_of_int (dc_values code0 codes ! j)"
  proof (intro allI impI)
    fix code0 :: int and codes :: "int list" and j :: nat
    assume a: "length codes = nat B - 1 \<and> j < nat B"
    have l: "length (dc_values code0 codes) = nat B"
      using a assms(1) by (simp add: length_dc_values)
    have "store_dcs dest 0 (dc_values code0 codes) ! (0 + j) ! 0 = word_of_int (dc_values code0 codes ! j)"
    proof (rule store_dcs_nth)
      show "0 + length (dc_values code0 codes) \<le> length dest"
        using l assms(2,3) by simp
      show "\<forall>b<length dest. dest ! b \<noteq> []"
        using assms(3,4) by auto
      show "j < length (dc_values code0 codes)"
        using l a by simp
    qed
    then show "store_dcs dest 0 (dc_values code0 codes) ! j ! 0 = word_of_int (dc_values code0 codes ! j)"
      by simp
  qed
qed

theorem decodeDCCoefficients_reference_witness:
  "decodeDCCoefficients \<lparr>Offset = 0, Bytes = [0x81, 0x00]\<rparr> (replicate 32 (replicate 64 0)) 2
     = Return (Inr (store_dcs (replicate 32 (replicate 64 0)) 0 [0, 4],
         \<lparr>Offset = 12, Bytes = [0x81, 0x00]\<rparr>))
   \<and> store_dcs (replicate 32 (replicate 64 0)) 0 (dc_values 0 [8]) ! 1 ! 0 = 4"
proof -
  let ?dest = "replicate 32 (replicate 64 (0 :: 16 word))"
  let ?bs = "\<lparr>Offset = 0, Bytes = [0x81, 0x00]\<rparr>"
  have h: "(1 :: int) \<le> 2" "(2 :: int) \<le> 32" "length ?dest = 32" "\<forall>b<32. length (?dest ! b) = 64"
    by simp_all
  note t = decodeDCCoefficients_reference [OF h, of ?bs]
  have e: "(case Decode 0xb8 ?bs of
         Panic \<Rightarrow> Panic
       | Return None \<Rightarrow> Return (Inl ''unable to decode initial codeword'')
       | Return (Some (code0, bs1)) \<Rightarrow>
           (case dc_codes (nat 2 - 1) 5 bs1 of
              Panic \<Rightarrow> Panic
            | Return None \<Rightarrow> Return (Inl ''unable to decode codeword'')
            | Return (Some (codes, bs2)) \<Rightarrow>
                Return (Inr (store_dcs ?dest 0 (dc_values code0 codes), bs2))))
      = Return (Inr (store_dcs ?dest 0 [0, 4], \<lparr>Offset = 12, Bytes = [0x81, 0x00]\<rparr>))"
    by code_simp
  have v: "dc_values 0 [8] ! 1 = 4"
    by code_simp
  from t have "store_dcs ?dest 0 (dc_values 0 [8]) ! 1 ! 0 = word_of_int (dc_values 0 [8] ! 1)"
    by simp
  with t e v show ?thesis
    by simp
qed

text \<open>
  C6 as stated fails in two places. Over \<open>81 00\<close> with two blocks the first code is 0;
  keyed by it, the second codeword would be read under \<open>04\<close> and give the DC \<open>-1\<close>, but
  the code reads it under entry 5, \<open>70\<close>, and stores 4. Over \<open>00 08 00 08 00\<close> the first
  code is 131042 and the first DC 65521, which is stored as the \<open>int16\<close> \<open>-15\<close>.
\<close>

theorem decodeDCCoefficients_claim_counterexample:
  "claimed_dc_values \<lparr>Offset = 0, Bytes = [0x81, 0x00]\<rparr> 2 = Some [0, - 1]
   \<and> decodeDCCoefficients \<lparr>Offset = 0, Bytes = [0x81, 0x00]\<rparr> (replicate 32 (replicate 64 0)) 2
     = Return (Inr ((replicate 32 (replicate 64 0))[1 := 4 # replicate 63 0],
         \<lparr>Offset = 12, Bytes = [0x81, 0x00]\<rparr>))
   \<and> claimed_dc_values \<lparr>Offset = 0, Bytes = [0x00, 0x08, 0x00, 0x08, 0x00]\<rparr> 1 = Some [65521]
   \<and> decodeDCCoefficients \<lparr>Offset = 0, Bytes = [0x00, 0x08, 0x00, 0x08, 0x00]\<rparr>
       (replicate 32 (replicate 64 0)) 1
     = Return (Inr ((replicate 32 (replicate 64 0))[0 := (- 15) # replicate 63 0],
         \<lparr>Offset = 30, Bytes = [0x00, 0x08, 0x00, 0x08, 0x00]\<rparr>))
   \<and> sint (- 15 :: 16 word) = - 15"
  by code_simp

subsection \<open>Slice tiling\<close>
















end
